theory Spec2Isabelle
  imports Complex_Main
begin

section \<open>Python values and errors\<close>

text \<open>
  The detector of \<^verbatim>\<open>src/alignment/batch_sequential_detector.py\<close> is embedded function by
  function. Every exception the Python code can raise is a value of \<open>py_error\<close>; a
  function that can raise returns \<open>py_error + 'a\<close> with \<open>Inl\<close> for the exception.
  Strings are lists of 8-bit characters read as the code points 0..255, so that
  \<open>length\<close> is Python's \<open>len\<close> on them.
\<close>

datatype py_error =
    ZeroDivisionError
  | IndexError
  | AttributeError
  | TypeError
  | ValueError
  | AssertionError
  | KeyError
  | OracleError

text \<open>\<open>str.split()\<close> without argument splits on runs of whitespace and returns no
  empty word. The whitespace code points below 256 are listed.\<close>

definition py_isspace :: "char \<Rightarrow> bool" where
  "py_isspace c \<longleftrightarrow> c \<in> set [CHR 0x09, CHR 0x0A, CHR 0x0B, CHR 0x0C, CHR 0x0D,
      CHR 0x1C, CHR 0x1D, CHR 0x1E, CHR 0x1F, CHR 0x20, CHR 0x85, CHR 0xA0]"

fun py_split_acc :: "string \<Rightarrow> string \<Rightarrow> string list" where
  "py_split_acc w [] = (if w = [] then [] else [w])"
| "py_split_acc w (c # cs) =
     (if py_isspace c then (if w = [] then py_split_acc [] cs else w # py_split_acc [] cs)
      else py_split_acc (w @ [c]) cs)"

definition py_split :: "string \<Rightarrow> string list" where
  "py_split s = py_split_acc [] s"

text \<open>\<open>chr(i)\<close> is defined on the code points below \<open>0x110000\<close> and raises ValueError
  elsewhere; a symbol is kept as its code point.\<close>

definition py_chr :: "int \<Rightarrow> py_error + nat" where
  "py_chr i = (if 0 \<le> i \<and> i < 1114112 then Inr (nat i) else Inl ValueError)"

section \<open>The tokenizer\<close>

text \<open>\<open>LCSTokenInfo = namedtuple('LCSTokenInfo', ('token', 'length', 'source_line_id'))\<close>\<close>

datatype LCSTokenInfo = LCSTokenInfo (token: nat) (tok_length: nat) (source_line_id: nat)

text \<open>\<open>word_dict\<close> is a Python dict; its insertion order is the order of the association
  list, and \<open>len(word_dict)\<close> is the list's length (keys are never repeated).\<close>

type_synonym word_dict = "(string \<times> nat) list"

definition setdefault :: "word_dict \<Rightarrow> string \<Rightarrow> nat \<Rightarrow> word_dict \<times> nat" where
  "setdefault d w v = (case map_of d w of Some i \<Rightarrow> (d, i) | None \<Rightarrow> (d @ [(w, v)], v))"

text \<open>Lines 42-47: the inner loop over the words of one input line.\<close>

fun input_words ::
  "int \<Rightarrow> nat \<Rightarrow> word_dict \<Rightarrow> LCSTokenInfo list \<Rightarrow> string list
     \<Rightarrow> py_error + (word_dict \<times> LCSTokenInfo list)" where
  "input_words off lid d toks [] = Inr (d, toks)"
| "input_words off lid d toks (w # ws) =
     (case setdefault d w (length d) of (d', i) \<Rightarrow>
       (case py_chr (off + int i) of
          Inl e \<Rightarrow> Inl e
        | Inr c \<Rightarrow> input_words off lid d' (toks @ [LCSTokenInfo c (length w) lid]) ws))"

text \<open>Line 41: the loop over \<open>enumerate(input_lines)\<close>.\<close>

fun input_lines_loop ::
  "int \<Rightarrow> nat \<Rightarrow> word_dict \<Rightarrow> LCSTokenInfo list \<Rightarrow> string list
     \<Rightarrow> py_error + (word_dict \<times> LCSTokenInfo list)" where
  "input_lines_loop off lid d toks [] = Inr (d, toks)"
| "input_lines_loop off lid d toks (l # ls) =
     (case input_words off lid d toks (py_split l) of
        Inl e \<Rightarrow> Inl e
      | Inr (d', toks') \<Rightarrow> input_lines_loop off (Suc lid) d' toks' ls)"

text \<open>Lines 50-56: the words of one output line; a word that is not a key of
  \<open>word_dict\<close> appends nothing.\<close>

fun output_words ::
  "int \<Rightarrow> nat \<Rightarrow> word_dict \<Rightarrow> LCSTokenInfo list \<Rightarrow> string list
     \<Rightarrow> py_error + LCSTokenInfo list" where
  "output_words off lid d toks [] = Inr toks"
| "output_words off lid d toks (w # ws) =
     (case map_of d w of
        None \<Rightarrow> output_words off lid d toks ws
      | Some i \<Rightarrow>
         (case py_chr (off + int i) of
            Inl e \<Rightarrow> Inl e
          | Inr c \<Rightarrow> output_words off lid d (toks @ [LCSTokenInfo c (length w) lid]) ws))"

fun output_lines_loop ::
  "int \<Rightarrow> nat \<Rightarrow> word_dict \<Rightarrow> LCSTokenInfo list \<Rightarrow> string list
     \<Rightarrow> py_error + LCSTokenInfo list" where
  "output_lines_loop off lid d toks [] = Inr toks"
| "output_lines_loop off lid d toks (l # ls) =
     (case output_words off lid d toks (py_split l) of
        Inl e \<Rightarrow> Inl e
      | Inr toks' \<Rightarrow> output_lines_loop off (Suc lid) d toks' ls)"

definition tokenize_by_space_splited_word ::
  "string list \<Rightarrow> string list \<Rightarrow> int
     \<Rightarrow> py_error + (LCSTokenInfo list \<times> LCSTokenInfo list)" where
  "tokenize_by_space_splited_word input_lines output_lines off =
     (case input_lines_loop off 0 [] [] input_lines of
        Inl e \<Rightarrow> Inl e
      | Inr (word_dict, input_tokens_info) \<Rightarrow>
         (case output_lines_loop off 0 word_dict [] output_lines of
            Inl e \<Rightarrow> Inl e
          | Inr output_tokens_info \<Rightarrow> Inr (input_tokens_info, output_tokens_info)))"

section \<open>Line alignment\<close>

text \<open>\<open>str.splitlines()\<close>: the line boundaries below code point 256, \<open>\r\n\<close> counted
  as one, and no empty last line after a final boundary.\<close>

definition py_islinebreak :: "char \<Rightarrow> bool" where
  "py_islinebreak c \<longleftrightarrow> c \<in> set [CHR 0x0A, CHR 0x0B, CHR 0x0C, CHR 0x0D,
      CHR 0x1C, CHR 0x1D, CHR 0x1E, CHR 0x85]"

fun splitlines_acc :: "string \<Rightarrow> string \<Rightarrow> string list" where
  "splitlines_acc cur [] = (if cur = [] then [] else [cur])"
| "splitlines_acc cur [c] = (if py_islinebreak c then [cur] else [cur @ [c]])"
| "splitlines_acc cur (c # d # cs) =
     (if c = CHR 0x0D \<and> d = CHR 0x0A then cur # splitlines_acc [] cs
      else if py_islinebreak c then cur # splitlines_acc [] (d # cs)
      else splitlines_acc (cur @ [c]) (d # cs))"

definition splitlines :: "string \<Rightarrow> string list" where
  "splitlines s = splitlines_acc [] s"

text \<open>Python list indexing with an \<open>int\<close>: a negative index counts from the end, an index
  out of range raises IndexError.\<close>

definition py_getitem :: "'a list \<Rightarrow> int \<Rightarrow> py_error + 'a" where
  "py_getitem xs i =
     (let n = int (length xs) in
      if 0 \<le> i \<and> i < n then Inr (xs ! nat i)
      else if - n \<le> i \<and> i < 0 then Inr (xs ! nat (n + i))
      else Inl IndexError)"

definition py_setitem :: "'a list \<Rightarrow> int \<Rightarrow> 'a \<Rightarrow> py_error + 'a list" where
  "py_setitem xs i v =
     (let n = int (length xs) in
      if 0 \<le> i \<and> i < n then Inr (xs[nat i := v])
      else if - n \<le> i \<and> i < 0 then Inr (xs[nat (n + i) := v])
      else Inl IndexError)"

text \<open>
  Modelled from the spec: line 81 calls \<open>GPTBatchSequentialDetector.tokenize_for_lcs\<close>,
  a name the source file does not define. Section 4.2 step 1 of the specification says
  that both sides are encoded by the token encoder, which is
  \<open>tokenize_by_space_splited_word\<close> with its default offset 0.
\<close>

definition tokenize_for_lcs ::
  "string list \<Rightarrow> string list \<Rightarrow> py_error + (LCSTokenInfo list \<times> LCSTokenInfo list)" where
  "tokenize_for_lcs input_lines output_lines =
     tokenize_by_space_splited_word input_lines output_lines 0"

text \<open>
  \<open>mapping\<close> is a dict from an output line id to a set of input line ids. It is kept as
  an association list in insertion order with a duplicate-free list for each set;
  \<open>mapping.setdefault(k, set()).add(v)\<close> is \<open>mapping_add\<close>, \<open>mapping.pop(k)\<close> on a
  present key is \<open>mapping_pop\<close>.
\<close>

type_synonym groups = "(nat \<times> nat list) list"

definition mapping_add :: "groups \<Rightarrow> nat \<Rightarrow> nat \<Rightarrow> groups" where
  "mapping_add m k v =
     (case map_of m k of
        None \<Rightarrow> m @ [(k, [v])]
      | Some _ \<Rightarrow> map (\<lambda>(k', s). if k' = k then (k', List.insert v s) else (k', s)) m)"

definition mapping_pop :: "groups \<Rightarrow> nat \<Rightarrow> groups" where
  "mapping_pop m k = filter (\<lambda>(k', s). k' \<noteq> k) m"

text \<open>
  \<open>pylcs.lcs_sequence_idx\<close> is an external library: the aligner takes it as the
  parameter \<open>lcs\<close>, which returns for each position of its first argument either
  \<open>None\<close> (Python's -1) or the matched position of the second.

  Lines 92-98, the loop over \<open>enumerate(aligned_indexes)\<close>. The hit rates are still
  the integer sums of matched word lengths here.
\<close>

fun align_loop ::
  "LCSTokenInfo list \<Rightarrow> LCSTokenInfo list \<Rightarrow> nat \<Rightarrow> groups \<times> nat list \<times> nat list
     \<Rightarrow> nat option list \<Rightarrow> py_error + (groups \<times> nat list \<times> nat list)" where
  "align_loop its ots i st [] = Inr st"
| "align_loop its ots i st (None # as) = align_loop its ots (Suc i) st as"
| "align_loop its ots i (m, ih, oh) (Some j # as) =
     (if i < length its \<and> j < length ots then
        (let il = source_line_id (its ! i); ol = source_line_id (ots ! j) in
         if il < length ih \<and> ol < length oh then
           align_loop its ots (Suc i)
             (mapping_add m ol il,
              ih[il := ih ! il + tok_length (its ! i)],
              oh[ol := oh ! ol + tok_length (ots ! j)]) as
         else Inl IndexError)
      else Inl IndexError)"

text \<open>Lines 100-103: \<open>hit_rate[p] /= sum(map(len, lines[p].split()))\<close> for every \<open>p\<close>.
  Python's true division raises ZeroDivisionError on a zero divisor. The quotient of
  the two integers is kept exactly, as a rational.\<close>

fun hit_rate_div :: "nat list \<Rightarrow> string list \<Rightarrow> py_error + rat list" where
  "hit_rate_div [] ls = Inr []"
| "hit_rate_div (h # hs) [] = Inl IndexError"
| "hit_rate_div (h # hs) (l # ls) =
     (let total = sum_list (map length (py_split l)) in
      if total = 0 then Inl ZeroDivisionError
      else (case hit_rate_div hs ls of
              Inl e \<Rightarrow> Inl e
            | Inr rs \<Rightarrow> Inr (of_nat h / of_nat total # rs)))"

text \<open>Lines 106-109: the confidence filter over \<open>enumerate(output_hit_rate)\<close>.\<close>

fun drop_low :: "nat \<Rightarrow> groups \<Rightarrow> rat list \<Rightarrow> groups" where
  "drop_low p m [] = m"
| "drop_low p m (i # rs) =
     drop_low (Suc p)
       (if i < 6 / 10 then (if map_of m p \<noteq> None then mapping_pop m p else m) else m) rs"

definition lcs_sequence_alignment ::
  "(nat list \<Rightarrow> nat list \<Rightarrow> nat option list) \<Rightarrow> string list \<Rightarrow> string list
     \<Rightarrow> py_error + (groups \<times> rat list \<times> rat list)" where
  "lcs_sequence_alignment lcs input_lines output_lines =
     (case tokenize_for_lcs input_lines output_lines of
        Inl e \<Rightarrow> Inl e
      | Inr (input_tokens_info, output_tokens_info) \<Rightarrow>
         (let input_hit_rate = replicate (length input_lines) 0;
              output_hit_rate = replicate (length output_lines) 0;
              input_tokens = map token input_tokens_info;
              output_tokens = map token output_tokens_info;
              aligned_indexes = lcs input_tokens output_tokens
          in case align_loop input_tokens_info output_tokens_info 0
                    ([], input_hit_rate, output_hit_rate) aligned_indexes of
               Inl e \<Rightarrow> Inl e
             | Inr (mapping, ih, oh) \<Rightarrow>
                (case hit_rate_div ih input_lines of
                   Inl e \<Rightarrow> Inl e
                 | Inr irate \<Rightarrow>
                    (case hit_rate_div oh output_lines of
                       Inl e \<Rightarrow> Inl e
                     | Inr orate \<Rightarrow> Inr (drop_low 0 mapping orate, irate, orate)))))"

text \<open>
  Modelled from the spec: a stand-in for the external \<open>pylcs.lcs_sequence_idx\<close>, used
  only to evaluate the aligner on concrete lines. Section 4.2 step 2 asks for the
  index-level longest common subsequence: for every position of the input sequence,
  no match or the matched position in the output sequence.
\<close>

fun lcs_length :: "nat list \<Rightarrow> nat list \<Rightarrow> nat" where
  "lcs_length [] ys = 0"
| "lcs_length (x # xs) [] = 0"
| "lcs_length (x # xs) (y # ys) =
     (if x = y then Suc (lcs_length xs ys)
      else max (lcs_length xs (y # ys)) (lcs_length (x # xs) ys))"

fun lcs_idx_from :: "nat \<Rightarrow> nat list \<Rightarrow> nat list \<Rightarrow> nat option list" where
  "lcs_idx_from j [] ys = []"
| "lcs_idx_from j (x # xs) [] = None # lcs_idx_from j xs []"
| "lcs_idx_from j (x # xs) (y # ys) =
     (if x = y then Some j # lcs_idx_from (Suc j) xs ys
      else if lcs_length (x # xs) ys \<le> lcs_length xs (y # ys)
        then None # lcs_idx_from j xs (y # ys)
        else lcs_idx_from (Suc j) (x # xs) ys)"

definition lcs_sequence_idx :: "nat list \<Rightarrow> nat list \<Rightarrow> nat option list" where
  "lcs_sequence_idx xs ys = lcs_idx_from 0 xs ys"

section \<open>The batcher\<close>

text \<open>
  The detector object \<open>self\<close>: its token budget, the length of
  \<open>self.encoder.encode(text)\<close> as the function \<open>count_tokens\<close> (the encoder raises on a
  text it refuses, so the count can fail), the external reflow service
  \<open>utils.gpt_detect_hard_line_breaks\<close> as \<open>reflow\<close> (it can fail), and the external LCS
  routine.
\<close>

record detector =
  token_limit :: int
  count_tokens :: "string \<Rightarrow> py_error + nat"
  reflow :: "string \<Rightarrow> py_error + string"
  lcs_idx :: "nat list \<Rightarrow> nat list \<Rightarrow> nat option list"

text \<open>Lines 166-175. \<open>lineid\<close> runs over \<open>range(begin_lineid, len(lines))\<close>; when the range
  is exhausted the model's \<open>lineid\<close> is \<open>len(lines)\<close>, which is Python's \<open>lineid + 1\<close>.
  Falling off the end with an empty \<open>buf\<close> returns Python's \<open>None\<close>.\<close>

function gen_batch_loop ::
  "detector \<Rightarrow> string list \<Rightarrow> string \<Rightarrow> int \<Rightarrow> py_error + (string \<times> int) option" where
  "gen_batch_loop self lines buf lineid =
     (if lineid < int (length lines) then
        (case py_getitem lines lineid of
           Inl e \<Rightarrow> Inl e
         | Inr line \<Rightarrow>
            (let tmp = (if length buf > 0 then buf @ [CHR 0x0A] else []) @ line in
             case count_tokens self tmp of
               Inl e \<Rightarrow> Inl e
             | Inr tks \<Rightarrow>
                 if token_limit self \<le> int tks then Inr (Some (buf, lineid))
                 else gen_batch_loop self lines tmp (lineid + 1)))
      else if buf \<noteq> [] then Inr (Some (buf, lineid))
      else Inr None)"
  by pat_completeness auto
termination
  by (relation "measure (\<lambda>(self, lines, buf, lineid). nat (int (length lines) - lineid))") auto

definition gen_batch ::
  "detector \<Rightarrow> string list \<Rightarrow> int \<Rightarrow> py_error + (string \<times> int) option" where
  "gen_batch self lines begin_lineid =
     (if begin_lineid < int (length lines) then gen_batch_loop self lines [] begin_lineid
      else Inl AssertionError)"

section \<open>The oracle request and its cache\<close>

text \<open>
  What a run leaves behind also when it ends by an exception: the cache directory, a
  map from \<open>(record_id, batch_index)\<close> to the stored text (the cache file is named by
  that pair, line 126), and the calls of \<open>gpt_linebreak_detection_request\<close> made so
  far, each recorded by that pair in the order of the calls.
\<close>

type_synonym cache = "string \<times> nat \<rightharpoonup> string"

record world =
  files :: cache
  requests :: "(string \<times> nat) list"

text \<open>Lines 126-134.\<close>

definition gpt_linebreak_detection_request ::
  "detector \<Rightarrow> world \<Rightarrow> string \<Rightarrow> string \<Rightarrow> nat \<Rightarrow> (py_error + string) \<times> world" where
  "gpt_linebreak_detection_request self w raw_text record_id batch_index =
     (let w' = w\<lparr>requests := requests w @ [(record_id, batch_index)]\<rparr> in
      case files w (record_id, batch_index) of
        None \<Rightarrow>
          (case reflow self raw_text of
             Inl e \<Rightarrow> (Inl e, w')
           | Inr output_text \<Rightarrow>
               (Inr output_text,
                w'\<lparr>files := (files w)((record_id, batch_index) \<mapsto> output_text)\<rparr>))
      | Some output_text \<Rightarrow> (Inr output_text, w'))"

section \<open>Sequential detection\<close>

text \<open>
  Line 202 binds the name \<open>align_map\<close> to what \<open>lcs_sequence_alignment\<close> returns, which
  is the triple \<open>(mapping, input_hit_rate, output_hit_rate)\<close>. Lines 205-217 then use
  \<open>len\<close>, \<open>.keys()\<close>, \<open>.pop\<close> and \<open>.values()\<close> on that name. Python resolves these at
  run time, so the value carries its type: a tuple has a length and none of the three
  methods (AttributeError), a dict has all of them.
\<close>

datatype align_value =
    PyTuple groups "rat list" "rat list"
  | PyDict groups

fun py_len :: "align_value \<Rightarrow> nat" where
  "py_len (PyTuple m ir orate) = 3"
| "py_len (PyDict m) = length m"

fun py_keys :: "align_value \<Rightarrow> py_error + nat list" where
  "py_keys (PyTuple m ir orate) = Inl AttributeError"
| "py_keys (PyDict m) = Inr (map fst m)"

fun py_values :: "align_value \<Rightarrow> py_error + nat list list" where
  "py_values (PyTuple m ir orate) = Inl AttributeError"
| "py_values (PyDict m) = Inr (map snd m)"

fun py_pop :: "align_value \<Rightarrow> nat \<Rightarrow> py_error + align_value" where
  "py_pop (PyTuple m ir orate) k = Inl AttributeError"
| "py_pop (PyDict m) k =
     (if map_of m k = None then Inl KeyError else Inr (PyDict (mapping_pop m k)))"

text \<open>\<open>max\<close> of an empty sequence raises ValueError.\<close>

definition py_max :: "nat list \<Rightarrow> py_error + nat" where
  "py_max xs = (case xs of [] \<Rightarrow> Inl ValueError | x # ys \<Rightarrow> Inr (fold max ys x))"

text \<open>Lines 205-212: the group of the highest output line is dropped when there is
  more than one entry, and the cursor is computed.\<close>

definition advance_cursor ::
  "string list \<Rightarrow> align_value \<Rightarrow> int \<Rightarrow> int \<Rightarrow> py_error + (align_value \<times> int)" where
  "advance_cursor lines align_map next_line_id input_line_offset =
     (if next_line_id < int (length lines) then
        (case (if 1 < py_len align_map then
                 (case py_keys align_map of
                    Inl e \<Rightarrow> Inl e
                  | Inr ks \<Rightarrow>
                     (case py_max ks of
                        Inl e \<Rightarrow> Inl e
                      | Inr k \<Rightarrow> py_pop align_map k))
               else Inr align_map) of
           Inl e \<Rightarrow> Inl e
         | Inr align_map' \<Rightarrow>
            (case py_values align_map' of
               Inl e \<Rightarrow> Inl e
             | Inr vs \<Rightarrow>
                (case py_max (concat vs) of
                   Inl e \<Rightarrow> Inl e
                 | Inr mx \<Rightarrow> Inr (align_map', int mx + input_line_offset + 1))))
      else Inr (align_map, int (length lines)))"

text \<open>Lines 214-217: \<open>detections[igroup + input_line_offset] = True\<close> for every
  \<open>igroup\<close> whose successor is in the same group.\<close>

fun mark_group :: "nat list \<Rightarrow> int \<Rightarrow> bool list \<Rightarrow> nat list \<Rightarrow> py_error + bool list" where
  "mark_group igroups off detections [] = Inr detections"
| "mark_group igroups off detections (igroup # rest) =
     (if igroup + 1 \<in> set igroups then
        (case py_setitem detections (int igroup + off) True of
           Inl e \<Rightarrow> Inl e
         | Inr detections' \<Rightarrow> mark_group igroups off detections' rest)
      else mark_group igroups off detections rest)"

fun mark_groups :: "int \<Rightarrow> bool list \<Rightarrow> nat list list \<Rightarrow> py_error + bool list" where
  "mark_groups off detections [] = Inr detections"
| "mark_groups off detections (igroups # rest) =
     (case mark_group igroups off detections igroups of
        Inl e \<Rightarrow> Inl e
      | Inr detections' \<Rightarrow> mark_groups off detections' rest)"

text \<open>The variables of \<open>detect\<close> that live across iterations.\<close>

record detect_state =
  todo_lineid :: int
  batch_id :: nat
  detections :: "bool list"

text \<open>Lines 203-217, for the value that \<open>align_map\<close> is bound to. \<open>batch_id\<close> is not
  assigned anywhere in the loop.\<close>

definition reconcile ::
  "string list \<Rightarrow> align_value \<Rightarrow> string \<Rightarrow> int \<Rightarrow> detect_state \<Rightarrow> py_error + detect_state" where
  "reconcile lines align_map batch next_line_id st =
     (let input_line_offset = next_line_id - int (length (splitlines batch)) in
      case py_getitem lines input_line_offset of
        Inl e \<Rightarrow> Inl e
      | Inr l \<Rightarrow>
         (case py_getitem (splitlines batch) 0 of
            Inl e \<Rightarrow> Inl e
          | Inr b \<Rightarrow>
             if l \<noteq> b then Inl AssertionError
             else
               (case advance_cursor lines align_map next_line_id input_line_offset of
                  Inl e \<Rightarrow> Inl e
                | Inr (align_map', todo) \<Rightarrow>
                   (case py_values align_map' of
                      Inl e \<Rightarrow> Inl e
                    | Inr vs \<Rightarrow>
                       (case mark_groups input_line_offset (detections st) vs of
                          Inl e \<Rightarrow> Inl e
                        | Inr ds \<Rightarrow> Inr (st\<lparr>todo_lineid := todo, detections := ds\<rparr>))))))"

text \<open>One pass through the loop body, lines 196-217. \<open>Break\<close> is the \<open>break\<close> of line
  198; unpacking the \<open>None\<close> that \<open>gen_batch\<close> can return raises TypeError.\<close>

datatype loop_exit = Break detect_state | Continue detect_state

definition detect_iter ::
  "detector \<Rightarrow> string list \<Rightarrow> string \<Rightarrow> world \<Rightarrow> detect_state
     \<Rightarrow> (py_error + loop_exit) \<times> world" where
  "detect_iter self lines record_id w st =
     (case gen_batch self lines (todo_lineid st) of
        Inl e \<Rightarrow> (Inl e, w)
      | Inr None \<Rightarrow> (Inl TypeError, w)
      | Inr (Some (batch, next_line_id)) \<Rightarrow>
         (case count_tokens self batch of
            Inl e \<Rightarrow> (Inl e, w)
          | Inr tks \<Rightarrow>
             if tks < 20 then (Inr (Break st), w)
             else
               (case gpt_linebreak_detection_request self w batch record_id (batch_id st) of
                  (Inl e, w') \<Rightarrow> (Inl e, w')
                | (Inr output_text, w') \<Rightarrow>
                   (case lcs_sequence_alignment (lcs_idx self) (splitlines batch)
                           (splitlines output_text) of
                      Inl e \<Rightarrow> (Inl e, w')
                    | Inr (mapping, irate, orate) \<Rightarrow>
                       (case reconcile lines (PyTuple mapping irate orate) batch next_line_id st of
                          Inl e \<Rightarrow> (Inl e, w')
                        | Inr st' \<Rightarrow> (Inr (Continue st'), w'))))))"

text \<open>The \<open>while\<close> loop of line 195. A run that never leaves the loop has the value
  \<open>None\<close>.\<close>

partial_function (option) detect_loop ::
  "detector \<Rightarrow> string list \<Rightarrow> string \<Rightarrow> world \<Rightarrow> detect_state
     \<Rightarrow> ((py_error + detect_state) \<times> world) option" where
  "detect_loop self lines record_id w st =
     (if todo_lineid st < int (length lines) then
        (case detect_iter self lines record_id w st of
           (Inl e, w') \<Rightarrow> Some (Inl e, w')
         | (Inr (Break st'), w') \<Rightarrow> Some (Inr st', w')
         | (Inr (Continue st'), w') \<Rightarrow> detect_loop self lines record_id w' st')
      else Some (Inr st, w))"

text \<open>\<open>[False] * (len(lines) - 1)\<close> is the empty list when \<open>lines\<close> is empty.\<close>

definition detect_init :: "string list \<Rightarrow> detect_state" where
  "detect_init lines =
     \<lparr>todo_lineid = 0, batch_id = 0, detections = replicate (length lines - 1) False\<rparr>"

text \<open>A run of \<open>detect\<close> on the cache directory \<open>fs\<close>: what it returns or raises, and what
  it leaves behind.\<close>

definition detect ::
  "detector \<Rightarrow> cache \<Rightarrow> string list \<Rightarrow> string \<Rightarrow> ((py_error + bool list) \<times> world) option" where
  "detect self fs lines record_id =
     map_option (\<lambda>(r, w). (map_sum id detections r, w))
       (detect_loop self lines record_id \<lparr>files = fs, requests = []\<rparr> (detect_init lines))"

section \<open>Notions used in the statements\<close>

subsection \<open>Words and their first-seen rank\<close>

text \<open>The words of the lines in reading order, the number of distinct words seen
  before the first occurrence of a word, and the words of the lines paired with the
  line's position as \<open>enumerate\<close> counts it.\<close>

definition words_of :: "string list \<Rightarrow> string list" where
  "words_of ls = concat (map py_split ls)"

definition first_seen_id :: "string list \<Rightarrow> string \<Rightarrow> nat" where
  "first_seen_id ws w = length (remdups (takeWhile (\<lambda>x. x \<noteq> w) ws))"

fun tagged_from :: "nat \<Rightarrow> string list \<Rightarrow> (string \<times> nat) list" where
  "tagged_from n [] = []"
| "tagged_from n (l # ls) = map (\<lambda>w. (w, n)) (py_split l) @ tagged_from (Suc n) ls"

text \<open>The token expected for the word \<open>fst p\<close> on line \<open>snd p\<close>, given the input
  words \<open>W\<close> and the offset.\<close>

definition spec_token :: "int \<Rightarrow> string list \<Rightarrow> string \<times> nat \<Rightarrow> LCSTokenInfo" where
  "spec_token off W p = LCSTokenInfo (nat (off + int (first_seen_id W (fst p)))) (length (fst p)) (snd p)"

text \<open>The loop invariant: after the words \<open>P\<close>, the dictionary holds exactly the
  words of \<open>P\<close>, each with its first-seen rank.\<close>

definition dict_ok :: "word_dict \<Rightarrow> string list \<Rightarrow> bool" where
  "dict_ok d P \<longleftrightarrow>
     (\<forall>w. map_of d w = (if w \<in> set P then Some (first_seen_id P w) else None)) \<and>
     length d = length (remdups P)"

subsection \<open>The contract of the LCS routine\<close>

text \<open>An alignment has one entry for each position of the first sequence; a matched
  position points at an equal symbol of the second sequence, and matched positions
  keep their order. A longest one matches at least as many positions as any other.\<close>

definition valid_alignment :: "nat list \<Rightarrow> nat list \<Rightarrow> nat option list \<Rightarrow> bool" where
  "valid_alignment xs ys r \<longleftrightarrow>
     length r = length xs \<and>
     (\<forall>i j. i < length r \<and> r ! i = Some j \<longrightarrow> j < length ys \<and> xs ! i = ys ! j) \<and>
     (\<forall>i i' j j'. i < i' \<and> i' < length r \<and> r ! i = Some j \<and> r ! i' = Some j' \<longrightarrow> j < j')"

definition matched :: "nat option list \<Rightarrow> nat" where
  "matched r = length (filter (\<lambda>a. a \<noteq> None) r)"

definition is_lcs_idx :: "nat list \<Rightarrow> nat list \<Rightarrow> nat option list \<Rightarrow> bool" where
  "is_lcs_idx xs ys r \<longleftrightarrow>
     valid_alignment xs ys r \<and> (\<forall>r'. valid_alignment xs ys r' \<longrightarrow> matched r' \<le> matched r)"

subsection \<open>The alignment of equal token sequences\<close>

text \<open>What one pass of the loop of lines 92-98 does for a token matched with itself,
  the mapping that sends every line below \<open>k\<close> to itself, and the divisor of lines 101
  and 103.\<close>

definition align_step :: "LCSTokenInfo \<Rightarrow> groups \<times> nat list \<times> nat list \<Rightarrow> groups \<times> nat list \<times> nat list" where
  "align_step t st = (case st of (m, ih, oh) \<Rightarrow>
     (mapping_add m (source_line_id t) (source_line_id t),
      ih[source_line_id t := ih ! source_line_id t + tok_length t],
      oh[source_line_id t := oh ! source_line_id t + tok_length t]))"

definition identity_groups :: "nat \<Rightarrow> groups" where
  "identity_groups k = map (\<lambda>p. (p, [p])) [0..<k]"

definition line_total :: "string \<Rightarrow> nat" where
  "line_total l = sum_list (map length (py_split l))"

subsection \<open>Concrete detectors\<close>

text \<open>Two concrete detectors: a token is a word, the reflow service answers its input
  unchanged, and the budgets are 1 and 30 tokens.\<close>

definition tiny_budget :: detector where
  "tiny_budget = \<lparr>token_limit = 1, count_tokens = (\<lambda>s. Inr (length (py_split s))),
      reflow = Inr, lcs_idx = lcs_sequence_idx\<rparr>"

definition roomy :: detector where
  "roomy = \<lparr>token_limit = 30, count_tokens = (\<lambda>s. Inr (length (py_split s))),
      reflow = Inr, lcs_idx = lcs_sequence_idx\<rparr>"

section \<open>The tokenizer builds a first-seen dictionary of the input words\<close>

lemma first_seen_id_append: "w \<in> set P \<Longrightarrow> first_seen_id (P @ Q) w = first_seen_id P w"
  by (simp add: first_seen_id_def takeWhile_append1) 

lemma takeWhile_fresh: "w \<notin> set P \<Longrightarrow> takeWhile (\<lambda>x. x \<noteq> w) (P @ w # Q) = P"
  by (induction P) auto

lemma first_seen_id_new: "w \<notin> set P \<Longrightarrow> first_seen_id (P @ w # Q) w = length (remdups P)"
  by (simp add: first_seen_id_def takeWhile_fresh) 

lemma dict_ok_empty: "dict_ok [] []"
  by (simp add: dict_ok_def)

lemma dict_ok_step:
  assumes "dict_ok d P" and "setdefault d w (length d) = (d', i)"
  shows "dict_ok d' (P @ [w]) \<and> i = first_seen_id (P @ [w]) w"
proof (cases "w \<in> set P")
  case True
  with assms have "map_of d w = Some (first_seen_id P w)" by (simp add: dict_ok_def)
  with assms(2) have d': "d' = d" and i: "i = first_seen_id P w" by (auto simp: setdefault_def)
  have "length (remdups (P @ [w])) = length (remdups P)"
    using True by (simp add: length_remdups_card_conv insert_absorb)
  with assms(1) True show ?thesis
    by (auto simp: d' i dict_ok_def first_seen_id_append)
next
  case False
  with assms have none: "map_of d w = None" by (simp add: dict_ok_def)
  with assms(2) have d': "d' = d @ [(w, length d)]" and i: "i = length d" by (auto simp: setdefault_def)
  have len: "length (remdups (P @ [w])) = Suc (length (remdups P))"
    using False by (simp add: length_remdups_card_conv)
  from assms(1) have ld: "length d = length (remdups P)" by (simp add: dict_ok_def)
  have "map_of d' x = (if x \<in> set (P @ [w]) then Some (first_seen_id (P @ [w]) x) else None)" for x
    using assms(1) False
    by (auto simp: d' dict_ok_def map_add_def first_seen_id_append first_seen_id_new ld split: option.splits)
  then show ?thesis using len ld False by (simp add: dict_ok_def d' i first_seen_id_new)
qed

lemma input_words_spec:
  "dict_ok d P \<Longrightarrow> input_words off lid d toks ws = Inr (d', toks') \<Longrightarrow>
     dict_ok d' (P @ ws) \<and>
     toks' = toks @ map (\<lambda>w. spec_token off (P @ ws) (w, lid)) ws"
proof (induction ws arbitrary: d P toks)
  case Nil
  then show ?case by simp
next
  case (Cons w ws)
  obtain d1 i where sd: "setdefault d w (length d) = (d1, i)" by (cases "setdefault d w (length d)")
  from dict_ok_step[OF Cons.prems(1) sd]
  have ok1: "dict_ok d1 (P @ [w])" and i: "i = first_seen_id (P @ [w]) w" by auto
  from Cons.prems(2) sd obtain c where c: "py_chr (off + int i) = Inr c"
    and rec: "input_words off lid d1 (toks @ [LCSTokenInfo c (length w) lid]) ws = Inr (d', toks')"
    by (auto split: sum.splits)
  from c have cv: "c = nat (off + int i)" by (auto simp: py_chr_def split: if_splits)
  from Cons.IH[OF ok1 rec] have ok': "dict_ok d' ((P @ [w]) @ ws)"
    and t: "toks' = (toks @ [LCSTokenInfo c (length w) lid]) @ map (\<lambda>x. spec_token off ((P @ [w]) @ ws) (x, lid)) ws"
    by auto
  have "first_seen_id (P @ w # ws) w = first_seen_id (P @ [w]) w"
    using first_seen_id_append[of w "P @ [w]" ws] by simp
  with ok' t show ?case by (simp add: cv i spec_token_def)
qed

lemma spec_token_append:
  "fst p \<in> set P \<Longrightarrow> spec_token off (P @ Q) p = spec_token off P p"
  by (simp add: spec_token_def first_seen_id_append)

lemma fst_tagged_from: "map fst (tagged_from n ls) = words_of ls"
  by (induction ls arbitrary: n) (auto simp: words_of_def comp_def)

lemma input_lines_loop_spec:
  "dict_ok d P \<Longrightarrow> input_lines_loop off lid d toks ls = Inr (d', toks') \<Longrightarrow>
     dict_ok d' (P @ words_of ls) \<and>
     toks' = toks @ map (spec_token off (P @ words_of ls)) (tagged_from lid ls)"
proof (induction ls arbitrary: d P toks lid)
  case Nil
  then show ?case by (simp add: words_of_def)
next
  case (Cons l ls)
  from Cons.prems(2) obtain d1 t1 where
    w: "input_words off lid d toks (py_split l) = Inr (d1, t1)"
    and rec: "input_lines_loop off (Suc lid) d1 t1 ls = Inr (d', toks')"
    by (auto split: sum.splits)
  from input_words_spec[OF Cons.prems(1) w]
  have ok1: "dict_ok d1 (P @ py_split l)"
    and t1: "t1 = toks @ map (\<lambda>w. spec_token off (P @ py_split l) (w, lid)) (py_split l)" by auto
  from Cons.IH[OF ok1 rec]
  have ok': "dict_ok d' ((P @ py_split l) @ words_of ls)"
    and t': "toks' = t1 @ map (spec_token off ((P @ py_split l) @ words_of ls)) (tagged_from (Suc lid) ls)"
    by auto
  have wo: "words_of (l # ls) = py_split l @ words_of ls" by (simp add: words_of_def)
  have "map (\<lambda>w. spec_token off (P @ py_split l) (w, lid)) (py_split l)
      = map (\<lambda>w. spec_token off ((P @ py_split l) @ words_of ls) (w, lid)) (py_split l)"
    by (rule map_cong) (use spec_token_append[where P="P @ py_split l" and Q="words_of ls" and off=off] in auto)
  with ok' t' t1 show ?case by (simp add: wo comp_def)
qed

lemma output_words_spec:
  "dict_ok d W \<Longrightarrow> output_words off lid d toks ws = Inr toks' \<Longrightarrow>
     toks' = toks @ map (spec_token off W) (filter (\<lambda>p. fst p \<in> set W) (map (\<lambda>w. (w, lid)) ws))"
proof (induction ws arbitrary: toks)
  case Nil
  then show ?case by simp
next
  case (Cons w ws)
  show ?case
  proof (cases "w \<in> set W")
    case True
    with Cons.prems(1) have m: "map_of d w = Some (first_seen_id W w)" by (simp add: dict_ok_def)
    with Cons.prems(2) obtain c where c: "py_chr (off + int (first_seen_id W w)) = Inr c"
      and rec: "output_words off lid d (toks @ [LCSTokenInfo c (length w) lid]) ws = Inr toks'"
      by (auto split: sum.splits)
    from c have cv: "c = nat (off + int (first_seen_id W w))" by (auto simp: py_chr_def split: if_splits)
    from Cons.IH[OF Cons.prems(1) rec] True show ?thesis by (simp add: cv spec_token_def)
  next
    case False
    with Cons.prems(1) have m: "map_of d w = None" by (simp add: dict_ok_def)
    with Cons.prems(2) have rec: "output_words off lid d toks ws = Inr toks'" by simp
    from Cons.IH[OF Cons.prems(1) rec] False show ?thesis by simp
  qed
qed

lemma output_lines_loop_spec:
  "dict_ok d W \<Longrightarrow> output_lines_loop off lid d toks ls = Inr toks' \<Longrightarrow>
     toks' = toks @ map (spec_token off W) (filter (\<lambda>p. fst p \<in> set W) (tagged_from lid ls))"
proof (induction ls arbitrary: toks lid)
  case Nil
  then show ?case by simp
next
  case (Cons l ls)
  from Cons.prems(2) obtain t1 where
    w: "output_words off lid d toks (py_split l) = Inr t1"
    and rec: "output_lines_loop off (Suc lid) d t1 ls = Inr toks'"
    by (auto split: sum.splits)
  from output_words_spec[OF Cons.prems(1) w] Cons.IH[OF Cons.prems(1) rec]
  show ?case by simp
qed

lemma tokenize_spec:
  assumes "tokenize_by_space_splited_word il ol off = Inr (its, ots)"
  shows "its = map (spec_token off (words_of il)) (tagged_from 0 il)"
    and "ots = map (spec_token off (words_of il))
                 (filter (\<lambda>p. fst p \<in> set (words_of il)) (tagged_from 0 ol))"
proof -
  from assms obtain d where
    i: "input_lines_loop off 0 [] [] il = Inr (d, its)"
    and out: "output_lines_loop off 0 d [] ol = Inr ots"
    by (auto simp: tokenize_by_space_splited_word_def split: sum.splits)
  from input_lines_loop_spec[OF dict_ok_empty i]
  have ok: "dict_ok d (words_of il)" and its: "its = map (spec_token off (words_of il)) (tagged_from 0 il)"
    by auto
  show "its = map (spec_token off (words_of il)) (tagged_from 0 il)" by (rule its)
  from output_lines_loop_spec[OF ok out]
  show "ots = map (spec_token off (words_of il))
                 (filter (\<lambda>p. fst p \<in> set (words_of il)) (tagged_from 0 ol))" by simp
qed

text \<open>
  Claim C10. Whenever the tokenizer returns, the input tokens are the input words in
  order, each with the symbol coded from the rank of its first occurrence among the
  distinct input words, its length and its line; the output tokens are the output
  words that occur on the input side, coded through the same dictionary, every other
  output word being left out; hence every output symbol is the symbol of some input
  token.
\<close>

theorem tokenizer_first_seen_dictionary:
  assumes "tokenize_by_space_splited_word il ol off = Inr (its, ots)"
  shows "its = map (spec_token off (words_of il)) (tagged_from 0 il) \<and>
         ots = map (spec_token off (words_of il))
                 (filter (\<lambda>p. fst p \<in> set (words_of il)) (tagged_from 0 ol)) \<and>
         token ` set ots \<subseteq> token ` set its"
proof -
  note s = tokenize_spec[OF assms]
  have "token ` set ots \<subseteq> token ` set its"
  proof
    fix c assume "c \<in> token ` set ots"
    then obtain p where p: "p \<in> set (tagged_from 0 ol)" "fst p \<in> set (words_of il)"
      and c: "c = token (spec_token off (words_of il) p)"
      unfolding s(2) by auto
    from p(2) obtain q where q: "q \<in> set (tagged_from 0 il)" "fst q = fst p"
      unfolding fst_tagged_from[of 0 il, symmetric] by auto
    then have "token (spec_token off (words_of il) q) = c"
      by (simp add: c spec_token_def)
    with q(1) show "c \<in> token ` set its" unfolding s(1) by force
  qed
  with s show ?thesis by simp
qed

lemma tokenize_example: "tokenize_by_space_splited_word [''a b a'', ''c''] [''b z c'', '''', ''a''] 0 = 
  Inr ([LCSTokenInfo 0 1 0, LCSTokenInfo 1 1 0, LCSTokenInfo 0 1 0, LCSTokenInfo 2 1 1], [LCSTokenInfo 1 1 0, LCSTokenInfo 2 1 0, LCSTokenInfo 0 1 2])"
  by (simp add: tokenize_by_space_splited_word_def py_split_def py_isspace_def setdefault_def py_chr_def)

theorem tokenizer_first_seen_dictionary_witness:
  "tokenize_by_space_splited_word [''a b a'', ''c''] [''b z c'', '''', ''a''] 0 = 
  Inr ([LCSTokenInfo 0 1 0, LCSTokenInfo 1 1 0, LCSTokenInfo 0 1 0, LCSTokenInfo 2 1 1], [LCSTokenInfo 1 1 0, LCSTokenInfo 2 1 0, LCSTokenInfo 0 1 2])
   \<and> token ` set [LCSTokenInfo 1 1 0, LCSTokenInfo 2 1 0, LCSTokenInfo 0 1 2] \<subseteq> token ` set [LCSTokenInfo 0 1 0, LCSTokenInfo 1 1 0, LCSTokenInfo 0 1 0, LCSTokenInfo 2 1 1]"
  using tokenizer_first_seen_dictionary[OF tokenize_example] tokenize_example by blast

section \<open>The confidence filter\<close>

lemma map_of_mapping_pop:
  "map_of (mapping_pop m k) k' = (if k' = k then None else map_of m k')"
  by (induction m) (auto simp: mapping_pop_def)

lemma drop_low_keeps_none:
  "map_of m k = None \<Longrightarrow> map_of (drop_low n m rs) k = None"
  by (induction rs arbitrary: n m) (auto simp: map_of_mapping_pop)

lemma drop_low_removed:
  "k < length rs \<Longrightarrow> rs ! k < 6 / 10 \<Longrightarrow> map_of (drop_low n m rs) (n + k) = None"
proof (induction rs arbitrary: n m k)
  case Nil
  then show ?case by simp
next
  case (Cons r rs)
  show ?case
  proof (cases k)
    case 0
    with Cons.prems show ?thesis
      by (auto intro!: drop_low_keeps_none simp: map_of_mapping_pop)
  next
    case (Suc k')
    with Cons.prems Cons.IH[of k' "Suc n"] show ?thesis by simp
  qed
qed

text \<open>
  Claim C6. Whenever the aligner returns, for any LCS routine, an output line whose
  hit rate is strictly below 0.6 is not a key of the returned mapping: the filter
  removes the entry.
\<close>

theorem low_hit_rate_lines_are_removed:
  assumes "lcs_sequence_alignment lcs il ol = Inr (mapping, irate, orate)"
      and "p < length orate" and "orate ! p < 6 / 10"
  shows "p \<notin> fst ` set mapping"
proof -
  from assms(1) obtain m where "mapping = drop_low 0 m orate"
    by (auto simp: lcs_sequence_alignment_def Let_def split: sum.splits prod.splits)
  with drop_low_removed[OF assms(2,3), of 0 m] show ?thesis
    by (simp add: map_of_eq_None_iff)
qed

lemma alignment_example: "lcs_sequence_alignment lcs_sequence_idx [''aa b''] [''b ccc''] = Inr ([], [1 / 3], [1 / 4])"
  by (simp add: lcs_sequence_alignment_def tokenize_for_lcs_def tokenize_by_space_splited_word_def
      py_split_def py_isspace_def setdefault_def py_chr_def lcs_sequence_idx_def mapping_add_def mapping_pop_def)

theorem low_hit_rate_lines_are_removed_witness:
  "lcs_sequence_alignment lcs_sequence_idx [''aa b''] [''b ccc''] = Inr ([], [1 / 3], [1 / 4]) \<and>
   (0::nat) < length [1 / 4 :: rat] \<and> [1 / 4 :: rat] ! 0 < 6 / 10 \<and>
   (0::nat) \<notin> fst ` set ([] :: groups)"
  using low_hit_rate_lines_are_removed[OF alignment_example, of 0] alignment_example by simp

section \<open>The batcher and the token budget\<close>

declare gen_batch_loop.simps [simp del]

lemma py_getitem_nonneg: "0 \<le> i \<Longrightarrow> i < int (length xs) \<Longrightarrow> py_getitem xs i = Inr (xs ! nat i)"
  by (simp add: py_getitem_def)

text \<open>One pass of the loop at a position inside the document, by the three outcomes of
  counting the candidate buffer.\<close>

lemma gen_batch_loop_step:
  assumes "0 \<le> i" and "i < int (length lines)"
  shows "gen_batch_loop self lines buf i =
     (case count_tokens self ((if 0 < length buf then buf @ [CHR 0x0A] else []) @ lines ! nat i) of
        Inl e \<Rightarrow> Inl e
      | Inr tks \<Rightarrow>
          if token_limit self \<le> int tks then Inr (Some (buf, i))
          else gen_batch_loop self lines
                 ((if 0 < length buf then buf @ [CHR 0x0A] else []) @ lines ! nat i) (i + 1))"
  using assms by (subst gen_batch_loop.simps) (simp add: py_getitem_nonneg Let_def)

lemma gen_batch_loop_end:
  "\<not> i < int (length lines) \<Longrightarrow>
     gen_batch_loop self lines buf i = (if buf \<noteq> [] then Inr (Some (buf, i)) else Inr None)"
  by (subst gen_batch_loop.simps) simp

lemma gen_batch_loop_budget:
  "0 \<le> i \<Longrightarrow>
   buf = [] \<or> (\<exists>n. count_tokens self buf = Inr n \<and> int n < token_limit self) \<Longrightarrow>
   gen_batch_loop self lines buf i = Inr (Some (batch, e)) \<Longrightarrow>
   i \<le> e \<and> e \<le> max i (int (length lines)) \<and>
   (batch = [] \<or> (\<exists>n. count_tokens self batch = Inr n \<and> int n < token_limit self))"
proof (induction self lines buf i rule: gen_batch_loop.induct)
  case (1 self lines buf lineid)
  show ?case
  proof (cases "lineid < int (length lines)")
    case True
    let ?tmp = "(if 0 < length buf then buf @ [CHR 0x0A] else []) @ lines ! nat lineid"
    have g: "py_getitem lines lineid = Inr (lines ! nat lineid)"
      using True 1(2) by (simp add: py_getitem_nonneg)
    note step = gen_batch_loop_step[OF 1(2) True, of self buf]
    show ?thesis
    proof (cases "count_tokens self ?tmp")
      case (Inl err)
      with step 1(4) show ?thesis by simp
    next
      case (Inr tks)
      show ?thesis
      proof (cases "token_limit self \<le> int tks")
        case over: True
        with step Inr have "gen_batch_loop self lines buf lineid = Inr (Some (buf, lineid))" by simp
        with 1(3,4) True show ?thesis by auto
      next
        case under: False
        with step Inr 1(4)
        have rec: "gen_batch_loop self lines ?tmp (lineid + 1) = Inr (Some (batch, e))" by simp
        have "lineid + 1 \<le> e \<and> e \<le> max (lineid + 1) (int (length lines)) \<and>
              (batch = [] \<or> (\<exists>n. count_tokens self batch = Inr n \<and> int n < token_limit self))"
          using 1(1)[OF True g refl Inr under _ _ rec] 1(2) under Inr by auto
        with True show ?thesis by auto
      qed
    qed
  next
    case False
    with gen_batch_loop_end[OF False, of self buf] 1(3,4) show ?thesis by (auto split: if_splits)
  qed
qed

lemma gen_batch_loop_nonempty:
  "0 \<le> i \<Longrightarrow> buf \<noteq> [] \<Longrightarrow> gen_batch_loop self lines buf i = Inr r \<Longrightarrow>
   \<exists>batch e. r = Some (batch, e) \<and> batch \<noteq> []"
proof (induction self lines buf i rule: gen_batch_loop.induct)
  case (1 self lines buf lineid)
  show ?case
  proof (cases "lineid < int (length lines)")
    case True
    let ?tmp = "(if 0 < length buf then buf @ [CHR 0x0A] else []) @ lines ! nat lineid"
    have g: "py_getitem lines lineid = Inr (lines ! nat lineid)"
      using True 1(2) by (simp add: py_getitem_nonneg)
    note step = gen_batch_loop_step[OF 1(2) True, of self buf]
    show ?thesis
    proof (cases "count_tokens self ?tmp")
      case (Inl err)
      with step 1(4) show ?thesis by simp
    next
      case (Inr tks)
      show ?thesis
      proof (cases "token_limit self \<le> int tks")
        case over: True
        with step Inr 1(3,4) show ?thesis by simp
      next
        case under: False
        with step Inr 1(4)
        have rec: "gen_batch_loop self lines ?tmp (lineid + 1) = Inr r" by simp
        show ?thesis using 1(1)[OF True g refl Inr under _ _ rec] 1(2,3) by simp
      qed
    qed
  next
    case False
    with gen_batch_loop_end[OF False, of self buf] 1(3,4) show ?thesis by simp
  qed
qed

lemma gen_batch_loop_total:
  "0 \<le> i \<Longrightarrow> \<forall>s. \<exists>n. count_tokens self s = Inr n \<Longrightarrow>
     \<exists>r. gen_batch_loop self lines buf i = Inr r"
proof (induction self lines buf i rule: gen_batch_loop.induct)
  case (1 self lines buf lineid)
  show ?case
  proof (cases "lineid < int (length lines)")
    case True
    let ?tmp = "(if 0 < length buf then buf @ [CHR 0x0A] else []) @ lines ! nat lineid"
    have g: "py_getitem lines lineid = Inr (lines ! nat lineid)"
      using True 1(2) by (simp add: py_getitem_nonneg)
    note step = gen_batch_loop_step[OF 1(2) True, of self buf]
    from 1(3) obtain tks where tk: "count_tokens self ?tmp = Inr tks" by blast
    show ?thesis
    proof (cases "token_limit self \<le> int tks")
      case over: True
      with step tk show ?thesis by simp
    next
      case under: False
      from 1(1)[OF True g refl tk under _ 1(3)] 1(2) step tk under show ?thesis by simp
    qed
  next
    case False
    with gen_batch_loop_end[OF False, of self buf] show ?thesis by simp
  qed
qed

text \<open>
  Claim C3, as the code has it. For a start position inside the document: a batch
  that \<open>gen_batch\<close> returns ends between the start and the document's length, and its
  text is empty or counts strictly fewer tokens than the budget. When the first line
  is not empty and alone counts fewer tokens than the budget, whatever \<open>gen_batch\<close>
  returns is a batch with a non-empty text that ends after that line, and such a
  batch is returned when the token counter fails on no text. When the first line
  alone reaches the budget, the batch is the empty text ending at the start position:
  the line is not emitted.
\<close>

theorem gen_batch_stays_under_budget:
  assumes "0 \<le> b" and "b < int (length lines)"
  shows "(\<forall>batch e. gen_batch self lines b = Inr (Some (batch, e)) \<longrightarrow>
       b \<le> e \<and> e \<le> int (length lines) \<and>
       (batch = [] \<or> (\<exists>n. count_tokens self batch = Inr n \<and> int n < token_limit self))) \<and>
    (lines ! nat b \<noteq> [] \<and>
     (\<exists>n. count_tokens self (lines ! nat b) = Inr n \<and> int n < token_limit self) \<longrightarrow>
       (\<forall>r. gen_batch self lines b = Inr r \<longrightarrow>
          (\<exists>batch e. r = Some (batch, e) \<and> batch \<noteq> [] \<and> b < e)) \<and>
       ((\<forall>s. \<exists>n. count_tokens self s = Inr n) \<longrightarrow>
          (\<exists>batch e. gen_batch self lines b = Inr (Some (batch, e)) \<and> batch \<noteq> [] \<and> b < e))) \<and>
    ((\<exists>n. count_tokens self (lines ! nat b) = Inr n \<and> token_limit self \<le> int n) \<longrightarrow>
       gen_batch self lines b = Inr (Some ([], b)))"
proof -
  have gb: "gen_batch self lines b = gen_batch_loop self lines [] b"
    using assms by (simp add: gen_batch_def)
  note first = gen_batch_loop_step[OF assms(1,2), of self "[]"]
  have c1: "b \<le> e \<and> e \<le> int (length lines) \<and>
       (batch = [] \<or> (\<exists>n. count_tokens self batch = Inr n \<and> int n < token_limit self))"
    if "gen_batch self lines b = Inr (Some (batch, e))" for batch e
    using gen_batch_loop_budget[OF assms(1), of "[]" self lines batch e] that assms(2)
    unfolding gb by auto
  have c2: "\<exists>batch e. r = Some (batch, e) \<and> batch \<noteq> [] \<and> b < e"
    if h: "lines ! nat b \<noteq> [] \<and>
           (\<exists>n. count_tokens self (lines ! nat b) = Inr n \<and> int n < token_limit self)"
      and r: "gen_batch self lines b = Inr r" for r
  proof -
    from h obtain n where n: "count_tokens self (lines ! nat b) = Inr n"
      and u: "int n < token_limit self" by blast
    from first n u r have rec: "gen_batch_loop self lines (lines ! nat b) (b + 1) = Inr r"
      unfolding gb by simp
    from gen_batch_loop_nonempty[OF _ _ rec] h assms(1)
    obtain batch e where s: "r = Some (batch, e)" and ne: "batch \<noteq> []" by auto
    from gen_batch_loop_budget[of "b + 1" "lines ! nat b" self lines batch e] n u assms(1) rec s
    have "b + 1 \<le> e" by auto
    with s ne show ?thesis by auto
  qed
  have c2': "\<exists>batch e. gen_batch self lines b = Inr (Some (batch, e)) \<and> batch \<noteq> [] \<and> b < e"
    if h: "lines ! nat b \<noteq> [] \<and>
           (\<exists>n. count_tokens self (lines ! nat b) = Inr n \<and> int n < token_limit self)"
      and t: "\<forall>s. \<exists>n. count_tokens self s = Inr n"
  proof -
    from gen_batch_loop_total[OF assms(1) t, of lines "[]"]
    obtain r where r: "gen_batch self lines b = Inr r" unfolding gb by blast
    from c2[OF h r] r show ?thesis by auto
  qed
  have c3: "gen_batch self lines b = Inr (Some ([], b))"
    if "\<exists>n. count_tokens self (lines ! nat b) = Inr n \<and> token_limit self \<le> int n"
    using that first unfolding gb by auto
  from c1 c2 c2' c3 show ?thesis by blast
qed

lemma gen_batch_oversized_example: "gen_batch tiny_budget [''x''] 0 = Inr (Some ([], 0))"
  by (simp add: gen_batch_def tiny_budget_def gen_batch_loop.simps py_getitem_def
      py_split_def py_isspace_def)

theorem gen_batch_stays_under_budget_witness:
  "(0::int) \<le> 0 \<and> (0::int) < int (length [''ab'', ''cd'']) \<and>
   [''ab'', ''cd''] ! nat 0 \<noteq> [] \<and>
   (\<exists>n. count_tokens roomy ([''ab'', ''cd''] ! nat 0) = Inr n \<and> int n < token_limit roomy) \<and>
   (\<forall>s. \<exists>n. count_tokens roomy s = Inr n) \<and>
   (\<exists>batch e. gen_batch roomy [''ab'', ''cd''] 0 = Inr (Some (batch, e)) \<and> batch \<noteq> [] \<and> 0 < e)"
proof -
  have h: "[''ab'', ''cd''] ! nat 0 \<noteq> [] \<and>
    (\<exists>n. count_tokens roomy ([''ab'', ''cd''] ! nat 0) = Inr n \<and> int n < token_limit roomy)"
    by (simp add: roomy_def py_split_def py_isspace_def)
  have t: "\<forall>s. \<exists>n. count_tokens roomy s = Inr n" by (simp add: roomy_def)
  from gen_batch_stays_under_budget[of 0 "[''ab'', ''cd'']" roomy] h t
  have "\<exists>batch e. gen_batch roomy [''ab'', ''cd''] 0 = Inr (Some (batch, e)) \<and> batch \<noteq> [] \<and> 0 < e"
    by simp
  with h t show ?thesis by simp
qed

text \<open>The claim as stated fails: with a budget of one token the single line \<open>x\<close>
  reaches the budget alone, and no batch with a non-empty text is returned.\<close>

theorem oversized_first_line_counterexample:
  "\<not> (\<exists>batch e. gen_batch tiny_budget [''x''] 0 = Inr (Some (batch, e)) \<and> batch \<noteq> [])"
  by (simp add: gen_batch_oversized_example)


section \<open>The detection loop\<close>

subsection \<open>An iteration above the noise floor raises\<close>

lemma advance_cursor_tuple:
  "advance_cursor lines (PyTuple m ir orate) next_line_id off =
     (if next_line_id < int (length lines) then Inl AttributeError
      else Inr (PyTuple m ir orate, int (length lines)))"
  by (simp add: advance_cursor_def)

lemma reconcile_tuple_raises:
  "\<exists>e. reconcile lines (PyTuple m ir orate) batch next_line_id st = Inl e"
  by (auto simp: reconcile_def Let_def advance_cursor_tuple split: sum.splits)

text \<open>What one pass can be: an exception, or the \<open>break\<close> of line 198 with nothing
  changed. It never hands a new state to a next pass.\<close>

lemma detect_iter_cases:
  "(\<exists>e w'. detect_iter self lines record_id w st = (Inl e, w') \<and>
       (requests w' = requests w \<or> requests w' = requests w @ [(record_id, batch_id st)])) \<or>
   (detect_iter self lines record_id w st = (Inr (Break st), w) \<and>
      (\<exists>batch n tks. gen_batch self lines (todo_lineid st) = Inr (Some (batch, n)) \<and>
         count_tokens self batch = Inr tks \<and> tks < 20))"
proof (cases "gen_batch self lines (todo_lineid st)")
  case (Inl e)
  then show ?thesis by (simp add: detect_iter_def)
next
  case (Inr r)
  show ?thesis
  proof (cases r)
    case None
    with Inr show ?thesis by (simp add: detect_iter_def)
  next
    case (Some p)
    obtain batch n where p: "p = (batch, n)" by (cases p)
    show ?thesis
    proof (cases "count_tokens self batch")
      case (Inl e)
      with Inr Some p show ?thesis by (simp add: detect_iter_def)
    next
      case tk: (Inr tks)
      show ?thesis
      proof (cases "tks < 20")
        case True
        with Inr Some p tk show ?thesis by (simp add: detect_iter_def)
      next
        case False
        obtain o' w' where rq: "gpt_linebreak_detection_request self w batch record_id (batch_id st) = (o', w')"
          by (cases "gpt_linebreak_detection_request self w batch record_id (batch_id st)")
        then have lg: "requests w' = requests w @ [(record_id, batch_id st)]"
          by (auto simp: gpt_linebreak_detection_request_def Let_def split: option.splits sum.splits)
        show ?thesis
        proof (cases o')
          case (Inl e)
          with Inr Some p tk False rq lg show ?thesis by (simp add: detect_iter_def)
        next
          case out: (Inr output_text)
          show ?thesis
          proof (cases "lcs_sequence_alignment (lcs_idx self) (splitlines batch) (splitlines output_text)")
            case (Inl e)
            with Inr Some p tk False rq lg out show ?thesis by (simp add: detect_iter_def)
          next
            case al: (Inr t)
            obtain m ir orate where t: "t = (m, ir, orate)" by (cases t)
            from reconcile_tuple_raises[of lines m ir orate batch n st]
            obtain e where "reconcile lines (PyTuple m ir orate) batch n st = Inl e" by blast
            with Inr Some p tk False rq lg out al t show ?thesis by (simp add: detect_iter_def)
          qed
        qed
      qed
    qed
  qed
qed

lemma detect_iter_never_continues:
  "fst (detect_iter self lines record_id w st) \<noteq> Inr (Continue st')"
  using detect_iter_cases[of self lines record_id w st] by auto

text \<open>The loop runs its body at most once.\<close>

lemma detect_loop_once:
  "detect_loop self lines record_id w st =
     Some (if todo_lineid st < int (length lines)
           then (case detect_iter self lines record_id w st of
                   (Inl e, w') \<Rightarrow> (Inl e, w')
                 | (Inr x, w') \<Rightarrow> (Inr st, w'))
           else (Inr st, w))"
  using detect_iter_cases[of self lines record_id w st]
  by (subst detect_loop.simps) auto

lemma detect_loop_terminates:
  "\<exists>r. detect_loop self lines record_id w st = Some r"
  by (simp add: detect_loop_once)

lemma detect_terminates: "\<exists>r. detect self fs lines record_id = Some r"
  by (simp add: detect_def detect_loop_once)

subsection \<open>The runs that return\<close>

text \<open>A run returns a value only when the loop is never entered or when the first
  batch is below the noise floor; the decisions are then all \<open>False\<close> and no request
  was made. Every other run ends by an exception.\<close>

lemma detect_returns_below_noise_floor:
  assumes "detect self fs lines record_id = Some (Inr ds, w)"
  shows "ds = replicate (length lines - 1) False \<and> w = \<lparr>files = fs, requests = []\<rparr> \<and>
    (lines = [] \<or>
     (\<exists>batch n tks. gen_batch self lines 0 = Inr (Some (batch, n)) \<and>
        count_tokens self batch = Inr tks \<and> tks < 20))"
proof (cases "lines = []")
  case True
  with assms show ?thesis by (auto simp: detect_def detect_loop_once detect_init_def)
next
  case False
  let ?w = "\<lparr>files = fs, requests = []\<rparr>"
  let ?st = "detect_init lines"
  from False have c: "todo_lineid ?st < int (length lines)" by (simp add: detect_init_def)
  from detect_iter_cases[of self lines record_id ?w ?st]
  show ?thesis
  proof
    assume "\<exists>e w'. detect_iter self lines record_id ?w ?st = (Inl e, w') \<and>
       (requests w' = requests ?w \<or> requests w' = requests ?w @ [(record_id, batch_id ?st)])"
    with assms c show ?thesis by (auto simp: detect_def detect_loop_once)
  next
    assume "detect_iter self lines record_id ?w ?st = (Inr (Break ?st), ?w) \<and>
      (\<exists>batch n tks. gen_batch self lines (todo_lineid ?st) = Inr (Some (batch, n)) \<and>
         count_tokens self batch = Inr tks \<and> tks < 20)"
    with assms c show ?thesis by (auto simp: detect_def detect_loop_once detect_init_def)
  qed
qed



subsection \<open>The empty document\<close>

lemma detect_loop_empty:
  "detect_loop self [] record_id w (detect_init []) = Some (Inr (detect_init []), w)"
  by (simp add: detect_loop_once detect_init_def)

text \<open>
  Claim C8, as the code has it. For the empty document the loop condition is false at
  once: no batch is built, no request is made and the cache is left as it was, and
  \<open>detect\<close> returns the empty decision list. No error is raised.
\<close>

theorem detect_empty_document:
  "detect_loop self [] record_id w (detect_init []) = Some (Inr (detect_init []), w) \<and>
   detect self fs [] record_id = Some (Inr [], \<lparr>files = fs, requests = []\<rparr>)"
  using detect_loop_empty[of self record_id] by (simp add: detect_def detect_init_def)

text \<open>The claim as stated fails: the run on the empty document is not an error.\<close>

theorem detect_empty_document_counterexample:
  "\<not> (\<exists>e w. detect roomy Map.empty [] ''r'' = Some (Inl e, w))"
  using detect_loop_empty[of roomy "''r''" "\<lparr>files = Map.empty, requests = []\<rparr>"]
  by (simp add: detect_def)

subsection \<open>Runs above the noise floor\<close>

text \<open>Three documents of one, two and three lines of twelve or more words, run with the
  budget of 30 tokens. The alignments are those of the batches with themselves, since
  the reflow service of \<open>roomy\<close> returns its input.\<close>

lemma one_line_alignment:
  "lcs_sequence_alignment lcs_sequence_idx [''a b c d e f g h i j k l m n o p q r s t u v w x'']
       [''a b c d e f g h i j k l m n o p q r s t u v w x'']
     = Inr ([(0, [0])], [1], [1])"
  by (simp add: lcs_sequence_alignment_def tokenize_for_lcs_def tokenize_by_space_splited_word_def
      py_split_def py_isspace_def setdefault_def py_chr_def lcs_sequence_idx_def mapping_add_def mapping_pop_def)

lemma one_line_splitlines:
  "splitlines ''a b c d e f g h i j k l m n o p q r s t u v w x''
     = [''a b c d e f g h i j k l m n o p q r s t u v w x'']"
  by (simp add: splitlines_def py_islinebreak_def)

lemma one_line_batch:
  "gen_batch roomy [''a b c d e f g h i j k l m n o p q r s t u v w x''] 0
     = Inr (Some (''a b c d e f g h i j k l m n o p q r s t u v w x'', 1))"
  by (simp add: gen_batch_def roomy_def gen_batch_loop.simps py_getitem_def
      py_split_def py_isspace_def)

lemma one_line_run:
  "detect roomy Map.empty [''a b c d e f g h i j k l m n o p q r s t u v w x''] ''r''
     = Some (Inl AttributeError,
         \<lparr>files = [(''r'', 0) \<mapsto> ''a b c d e f g h i j k l m n o p q r s t u v w x''],
          requests = [(''r'', 0)]\<rparr>)"
proof -
  have it: "detect_iter roomy [''a b c d e f g h i j k l m n o p q r s t u v w x''] ''r''
       \<lparr>files = Map.empty, requests = []\<rparr>
       (detect_init [''a b c d e f g h i j k l m n o p q r s t u v w x''])
      = (Inl AttributeError,
         \<lparr>files = [(''r'', 0) \<mapsto> ''a b c d e f g h i j k l m n o p q r s t u v w x''],
          requests = [(''r'', 0)]\<rparr>)"
    unfolding detect_iter_def
    by (simp add: detect_init_def one_line_batch)
       (simp add: roomy_def gpt_linebreak_detection_request_def one_line_splitlines one_line_alignment
          reconcile_def py_getitem_def advance_cursor_def py_split_def py_isspace_def
          detect_init_def)
  show ?thesis
    by (simp add: detect_def detect_loop_once it) (simp add: detect_init_def)
qed

lemma two_lines_alignment:
  "lcs_sequence_alignment lcs_sequence_idx [''a b c d e f g h i j k l'', ''m n o p q r s t u v w x'']
       [''a b c d e f g h i j k l'', ''m n o p q r s t u v w x'']
     = Inr ([(0, [0]), (1, [1])], [1, 1], [1, 1])"
  by (simp add: lcs_sequence_alignment_def tokenize_for_lcs_def tokenize_by_space_splited_word_def
      py_split_def py_isspace_def setdefault_def py_chr_def lcs_sequence_idx_def mapping_add_def mapping_pop_def)

lemma two_lines_splitlines:
  "splitlines ''a b c d e f g h i j k l\<newline>m n o p q r s t u v w x''
     = [''a b c d e f g h i j k l'', ''m n o p q r s t u v w x'']"
  by (simp add: splitlines_def py_islinebreak_def)

lemma two_lines_batch:
  "gen_batch roomy [''a b c d e f g h i j k l'', ''m n o p q r s t u v w x''] 0
     = Inr (Some (''a b c d e f g h i j k l\<newline>m n o p q r s t u v w x'', 2))"
  by (simp add: gen_batch_def roomy_def gen_batch_loop.simps py_getitem_def
      py_split_def py_isspace_def)

lemma two_lines_run:
  "detect roomy Map.empty [''a b c d e f g h i j k l'', ''m n o p q r s t u v w x''] ''r''
     = Some (Inl AttributeError,
         \<lparr>files = [(''r'', 0) \<mapsto> ''a b c d e f g h i j k l\<newline>m n o p q r s t u v w x''],
          requests = [(''r'', 0)]\<rparr>)"
proof -
  have it: "detect_iter roomy [''a b c d e f g h i j k l'', ''m n o p q r s t u v w x''] ''r''
       \<lparr>files = Map.empty, requests = []\<rparr>
       (detect_init [''a b c d e f g h i j k l'', ''m n o p q r s t u v w x''])
      = (Inl AttributeError,
         \<lparr>files = [(''r'', 0) \<mapsto> ''a b c d e f g h i j k l\<newline>m n o p q r s t u v w x''],
          requests = [(''r'', 0)]\<rparr>)"
    unfolding detect_iter_def
    by (simp add: detect_init_def two_lines_batch)
       (simp add: roomy_def gpt_linebreak_detection_request_def two_lines_splitlines two_lines_alignment
          reconcile_def py_getitem_def advance_cursor_def py_split_def py_isspace_def
          detect_init_def)
  show ?thesis
    by (simp add: detect_def detect_loop_once it) (simp add: detect_init_def)
qed

lemma three_lines_batch:
  "gen_batch roomy [''a b c d e f g h i j k l'', ''m n o p q r s t u v w x'', ''y z a b c d e f g h i j''] 0
     = Inr (Some (''a b c d e f g h i j k l\<newline>m n o p q r s t u v w x'', 2))"
  by (simp add: gen_batch_def roomy_def gen_batch_loop.simps py_getitem_def
      py_split_def py_isspace_def)

lemma three_lines_run:
  "detect roomy Map.empty
       [''a b c d e f g h i j k l'', ''m n o p q r s t u v w x'', ''y z a b c d e f g h i j''] ''r''
     = Some (Inl AttributeError,
         \<lparr>files = [(''r'', 0) \<mapsto> ''a b c d e f g h i j k l\<newline>m n o p q r s t u v w x''],
          requests = [(''r'', 0)]\<rparr>)"
proof -
  have it: "detect_iter roomy
       [''a b c d e f g h i j k l'', ''m n o p q r s t u v w x'', ''y z a b c d e f g h i j''] ''r''
       \<lparr>files = Map.empty, requests = []\<rparr>
       (detect_init [''a b c d e f g h i j k l'', ''m n o p q r s t u v w x'', ''y z a b c d e f g h i j''])
      = (Inl AttributeError,
         \<lparr>files = [(''r'', 0) \<mapsto> ''a b c d e f g h i j k l\<newline>m n o p q r s t u v w x''],
          requests = [(''r'', 0)]\<rparr>)"
    unfolding detect_iter_def
    by (simp add: detect_init_def three_lines_batch)
       (simp add: roomy_def gpt_linebreak_detection_request_def two_lines_splitlines two_lines_alignment
          reconcile_def py_getitem_def advance_cursor_def py_split_def py_isspace_def
          detect_init_def)
  show ?thesis
    by (simp add: detect_def detect_loop_once it) (simp add: detect_init_def)
qed

text \<open>
  Claim C1 on the code. A document of one line of 24 words: the batch is the whole
  document, it is above the noise floor, the request and the alignment succeed, the
  cursor is set to the document's length, and the loop over \<open>align_map.values()\<close>
  raises AttributeError because \<open>align_map\<close> is the triple. The run ends by the
  exception, not by leaving the loop.
\<close>

theorem detect_single_line_raises:
  "detect roomy Map.empty [''a b c d e f g h i j k l m n o p q r s t u v w x''] ''r''
     = Some (Inl AttributeError,
         \<lparr>files = [(''r'', 0) \<mapsto> ''a b c d e f g h i j k l m n o p q r s t u v w x''],
          requests = [(''r'', 0)]\<rparr>)"
  by (rule one_line_run)

text \<open>
  Claim C2 on the code. A document of two lines of twelve words: one batch holds both
  lines, and the run raises AttributeError at the loop over \<open>align_map.values()\<close>. No
  decision vector is returned, of any length.
\<close>

theorem detect_returns_no_vector:
  "detect roomy Map.empty [''a b c d e f g h i j k l'', ''m n o p q r s t u v w x''] ''r''
     = Some (Inl AttributeError,
         \<lparr>files = [(''r'', 0) \<mapsto> ''a b c d e f g h i j k l\<newline>m n o p q r s t u v w x''],
          requests = [(''r'', 0)]\<rparr>) \<and>
   \<not> (\<exists>ds w. detect roomy Map.empty [''a b c d e f g h i j k l'', ''m n o p q r s t u v w x''] ''r''
          = Some (Inr ds, w))"
  by (simp add: two_lines_run)

text \<open>
  Claim C4 on the code. A document of three lines of twelve words: the first batch
  holds lines 0 and 1 and ends at line 2, before the document's end. On the triple
  that the aligner returns for this batch, lines 205-209 raise AttributeError at
  \<open>align_map.pop\<close>: no group is discarded and no cursor is set, and the run ends there.
\<close>

theorem boundary_iteration_raises:
  "gen_batch roomy [''a b c d e f g h i j k l'', ''m n o p q r s t u v w x'', ''y z a b c d e f g h i j''] 0
     = Inr (Some (''a b c d e f g h i j k l\<newline>m n o p q r s t u v w x'', 2)) \<and>
   lcs_sequence_alignment lcs_sequence_idx [''a b c d e f g h i j k l'', ''m n o p q r s t u v w x'']
       [''a b c d e f g h i j k l'', ''m n o p q r s t u v w x'']
     = Inr ([(0, [0]), (1, [1])], [1, 1], [1, 1]) \<and>
   advance_cursor [''a b c d e f g h i j k l'', ''m n o p q r s t u v w x'', ''y z a b c d e f g h i j'']
       (PyTuple [(0, [0]), (1, [1])] [1, 1] [1, 1]) 2 0
     = Inl AttributeError \<and>
   detect roomy Map.empty
       [''a b c d e f g h i j k l'', ''m n o p q r s t u v w x'', ''y z a b c d e f g h i j''] ''r''
     = Some (Inl AttributeError,
         \<lparr>files = [(''r'', 0) \<mapsto> ''a b c d e f g h i j k l\<newline>m n o p q r s t u v w x''],
          requests = [(''r'', 0)]\<rparr>)"
  using three_lines_batch two_lines_alignment three_lines_run
  by (simp add: advance_cursor_tuple)

subsection \<open>The keys of the oracle requests\<close>




section \<open>Hit rates of lines without words\<close>

lemma align_loop_lengths:
  "align_loop its ots i (m, ih, oh) as = Inr (m', ih', oh') \<Longrightarrow>
     length ih' = length ih \<and> length oh' = length oh"
proof (induction as arbitrary: i m ih oh)
  case Nil
  then show ?case by simp
next
  case (Cons a as)
  show ?case
  proof (cases a)
    case None
    with Cons show ?thesis by simp
  next
    case (Some j)
    with Cons.prems obtain m1 ih1 oh1 where
      "align_loop its ots (Suc i) (m1, ih1, oh1) as = Inr (m', ih', oh')"
      "length ih1 = length ih" "length oh1 = length oh"
      by (auto simp: Let_def split: if_splits)
    with Cons.IH show ?thesis by metis
  qed
qed

lemma hit_rate_div_zero_words:
  "l \<in> set ls \<Longrightarrow> py_split l = [] \<Longrightarrow> length hs = length ls \<Longrightarrow>
     hit_rate_div hs ls = Inl ZeroDivisionError"
proof (induction hs ls rule: hit_rate_div.induct)
  case (1 ls)
  then show ?case by simp
next
  case (2 h hs)
  then show ?case by simp
next
  case (3 h hs l' ls)
  show ?case
  proof (cases "sum_list (map length (py_split l')) = 0")
    case True
    then show ?thesis by simp
  next
    case False
    then have "py_split l' \<noteq> []" by auto
    with 3 have "l \<in> set ls" by auto
    with 3 False show ?thesis by (simp add: Let_def)
  qed
qed

lemma hit_rate_div_length: "hit_rate_div hs ls = Inr rs \<Longrightarrow> length rs = length hs"
  by (induction hs ls arbitrary: rs rule: hit_rate_div.induct) (auto simp: Let_def split: if_splits sum.splits)

text \<open>
  Claim C5 on the code. Lines 101 and 103 divide by the line's total word length with
  no test for zero: whenever an input or an output line has no word, the aligner
  returns no value but raises, for any LCS routine.
\<close>

theorem zero_word_line_divides_by_zero:
  assumes "l \<in> set il \<union> set ol" and "py_split l = []"
  shows "\<exists>e. lcs_sequence_alignment lcs il ol = Inl e"
proof (rule ccontr)
  assume "\<not> ?thesis"
  then obtain r where r: "lcs_sequence_alignment lcs il ol = Inr r" by (cases "lcs_sequence_alignment lcs il ol") auto
  then obtain m ih oh ir orate where
    al: "align_loop (fst (projr (tokenize_for_lcs il ol))) (snd (projr (tokenize_for_lcs il ol))) 0
           ([], replicate (length il) 0, replicate (length ol) 0)
           (lcs (map token (fst (projr (tokenize_for_lcs il ol)))) (map token (snd (projr (tokenize_for_lcs il ol)))))
         = Inr (m, ih, oh)"
    and i: "hit_rate_div ih il = Inr ir" and out: "hit_rate_div oh ol = Inr orate"
    by (auto simp: lcs_sequence_alignment_def Let_def split: sum.splits prod.splits)
  from align_loop_lengths[OF al] have len: "length ih = length il" "length oh = length ol" by auto
  from assms(1) show False
  proof
    assume "l \<in> set il"
    from hit_rate_div_zero_words[OF this assms(2) len(1)] i show False by simp
  next
    assume "l \<in> set ol"
    from hit_rate_div_zero_words[OF this assms(2) len(2)] out show False by simp
  qed
qed

lemma empty_line_alignment:
  "lcs_sequence_alignment lcs_sequence_idx [''a b'', ''''] [''a b''] = Inl ZeroDivisionError"
  by (simp add: lcs_sequence_alignment_def tokenize_for_lcs_def tokenize_by_space_splited_word_def
      py_split_def py_isspace_def setdefault_def py_chr_def lcs_sequence_idx_def mapping_add_def mapping_pop_def)

theorem zero_word_line_divides_by_zero_witness:
  "'''' \<in> set [''a b'', ''''] \<union> set [''a b''] \<and> py_split '''' = [] \<and>
   lcs_sequence_alignment lcs_sequence_idx [''a b'', ''''] [''a b''] = Inl ZeroDivisionError"
  using zero_word_line_divides_by_zero[of "''''" "[''a b'', '''']" "[''a b'']" lcs_sequence_idx]
    empty_line_alignment
  by (simp add: py_split_def)

section \<open>Aligning a text with itself\<close>

lemma matched_identity: "matched (map Some [0..<n]) = n"
  by (simp add: matched_def)

lemma valid_identity: "valid_alignment xs xs (map Some [0..<length xs])"
  by (auto simp: valid_alignment_def)

lemma matched_le: "matched r \<le> length r"
  by (simp add: matched_def)

lemma is_lcs_idx_identity: "is_lcs_idx xs xs (map Some [0..<length xs])"
  unfolding is_lcs_idx_def
proof (intro conjI allI impI)
  show "valid_alignment xs xs (map Some [0..<length xs])" by (rule valid_identity)
next
  fix r' assume "valid_alignment xs xs r'"
  then have "length r' = length xs" by (simp add: valid_alignment_def)
  with matched_le[of r'] show "matched r' \<le> matched (map Some [0..<length xs])"
    by (simp add: matched_identity)
qed

lemma valid_alignment_range:
  "valid_alignment xs ys r \<Longrightarrow> i < length r \<Longrightarrow> r ! i = Some j \<Longrightarrow> j < length ys"
  unfolding valid_alignment_def by blast

lemma valid_alignment_increasing:
  "valid_alignment xs ys r \<Longrightarrow> i < i' \<Longrightarrow> i' < length r \<Longrightarrow>
     r ! i = Some j \<Longrightarrow> r ! i' = Some j' \<Longrightarrow> j < j'"
  unfolding valid_alignment_def by blast

lemma increasing_gap:
  fixes f :: "nat \<Rightarrow> nat"
  assumes "\<And>i i'. i < i' \<Longrightarrow> i' < n \<Longrightarrow> f i < f i'"
  shows "i \<le> i' \<Longrightarrow> i' < n \<Longrightarrow> f i + (i' - i) \<le> f i'"
proof (induction i')
  case 0
  then show ?case by simp
next
  case (Suc k)
  show ?case
  proof (cases "i = Suc k")
    case True
    then show ?thesis by simp
  next
    case False
    with Suc.prems have le: "i \<le> k" and k: "k < n" by auto
    from Suc.IH[OF le k] assms[of k "Suc k"] Suc.prems le show ?thesis by simp
  qed
qed

lemma lcs_of_equal_is_identity:
  assumes "is_lcs_idx xs xs r"
  shows "r = map Some [0..<length xs]"
proof -
  let ?n = "length xs"
  from assms have v: "valid_alignment xs xs r"
    and mx: "matched (map Some [0..<?n]) \<le> matched r"
    using valid_identity[of xs] by (auto simp: is_lcs_idx_def)
  from v have len: "length r = ?n" by (simp add: valid_alignment_def)
  from mx matched_le[of r] len have "matched r = length r" by (simp add: matched_identity)
  with sum_length_filter_compl[of "\<lambda>a. a \<noteq> None" r]
  have "filter (\<lambda>a. \<not> a \<noteq> None) r = []" by (simp add: matched_def)
  then have all: "\<forall>a \<in> set r. a \<noteq> None" by (simp add: filter_empty_conv)
  define f where "f i = the (r ! i)" for i
  have some: "r ! i = Some (f i)" if "i < ?n" for i
    using all that len by (auto simp: f_def)
  have bound: "f i < ?n" if "i < ?n" for i
    using valid_alignment_range[OF v _ some[OF that]] that len by simp
  have mono: "f i < f i'" if "i < i'" "i' < ?n" for i i'
  proof -
    from that have "i < ?n" by simp
    from valid_alignment_increasing[OF v that(1) _ some[OF this] some[OF that(2)]] that(2) len
    show ?thesis by simp
  qed
  have "f i = i" if i: "i < ?n" for i
  proof -
    from i have n1: "?n - 1 < ?n" by simp
    from increasing_gap[of ?n f 0 i] mono i have lo: "i \<le> f i" by simp
    from increasing_gap[of ?n f i "?n - 1"] mono i n1 have "f i + (?n - 1 - i) \<le> f (?n - 1)"
      by simp
    with bound[OF n1] i have "f i \<le> i" by simp
    with lo show ?thesis by simp
  qed
  with some len show ?thesis by (intro nth_equalityI) auto
qed

lemma lcs_idx_from_same: "lcs_idx_from j xs xs = map Some [j..<j + length xs]"
proof (induction xs arbitrary: j)
  case Nil
  then show ?case by simp
next
  case (Cons x xs)
  have "[j..<j + length (x # xs)] = j # [Suc j..<Suc j + length xs]"
    by (simp add: upt_rec)
  with Cons show ?case by simp
qed

lemma lcs_sequence_idx_same: "is_lcs_idx xs xs (lcs_sequence_idx xs xs)"
  using is_lcs_idx_identity[of xs] by (simp add: lcs_sequence_idx_def lcs_idx_from_same)

lemma first_seen_id_less: "w \<in> set P \<Longrightarrow> first_seen_id P w < length (remdups P)"
proof -
  assume w: "w \<in> set P"
  have "set (takeWhile (\<lambda>x. x \<noteq> w) P) \<subseteq> set P - {w}"
    using set_takeWhileD[of _ "\<lambda>x. x \<noteq> w" P] by auto
  then have "set (takeWhile (\<lambda>x. x \<noteq> w) P) \<subset> set P" using w by auto
  then have "card (set (takeWhile (\<lambda>x. x \<noteq> w) P)) < card (set P)"
    by (intro psubset_card_mono) auto
  then show ?thesis by (simp add: first_seen_id_def length_remdups_card_conv)
qed

lemma remdups_length_mono: "set xs \<subseteq> set ys \<Longrightarrow> length (remdups xs) \<le> length (remdups ys)"
  by (simp add: length_remdups_card_conv card_mono)

lemma input_words_returns:
  "dict_ok d P \<Longrightarrow> 0 \<le> off \<Longrightarrow> off + int (length (remdups (P @ ws))) \<le> 1114112 \<Longrightarrow>
     \<exists>d' toks'. input_words off lid d toks ws = Inr (d', toks')"
proof (induction ws arbitrary: d P toks)
  case Nil
  then show ?case by simp
next
  case (Cons w ws)
  obtain d1 i where sd: "setdefault d w (length d) = (d1, i)" by (cases "setdefault d w (length d)")
  from dict_ok_step[OF Cons.prems(1) sd]
  have ok1: "dict_ok d1 (P @ [w])" and i: "i = first_seen_id (P @ [w]) w" by auto
  have "i < length (remdups (P @ [w]))" unfolding i by (rule first_seen_id_less) simp
  also have "\<dots> \<le> length (remdups (P @ w # ws))" by (rule remdups_length_mono) auto
  finally have "off + int i < 1114112" using Cons.prems(3) by simp
  with Cons.prems(2) have c: "py_chr (off + int i) = Inr (nat (off + int i))"
    by (simp add: py_chr_def)
  from Cons.IH[OF ok1 Cons.prems(2), of "toks @ [LCSTokenInfo (nat (off + int i)) (length w) lid]"] Cons.prems(3)
  show ?case by (simp add: sd c)
qed

lemma input_lines_loop_returns:
  "dict_ok d P \<Longrightarrow> 0 \<le> off \<Longrightarrow> off + int (length (remdups (P @ words_of ls))) \<le> 1114112 \<Longrightarrow>
     \<exists>d' toks'. input_lines_loop off lid d toks ls = Inr (d', toks')"
proof (induction ls arbitrary: d P toks lid)
  case Nil
  then show ?case by simp
next
  case (Cons l ls)
  have wo: "words_of (l # ls) = py_split l @ words_of ls" by (simp add: words_of_def)
  have "length (remdups (P @ py_split l)) \<le> length (remdups (P @ words_of (l # ls)))"
    by (rule remdups_length_mono) (auto simp: wo)
  with Cons.prems(3) have b1: "off + int (length (remdups (P @ py_split l))) \<le> 1114112" by simp
  from input_words_returns[OF Cons.prems(1,2) b1, of lid toks]
  obtain d1 t1 where w: "input_words off lid d toks (py_split l) = Inr (d1, t1)" by blast
  from input_words_spec[OF Cons.prems(1) w] have ok1: "dict_ok d1 (P @ py_split l)" by simp
  from Cons.IH[OF ok1 Cons.prems(2), of "Suc lid" t1] Cons.prems(3)
  show ?case by (simp add: w wo)
qed

lemma output_words_returns:
  "dict_ok d W \<Longrightarrow> 0 \<le> off \<Longrightarrow> off + int (length (remdups W)) \<le> 1114112 \<Longrightarrow>
     \<exists>toks'. output_words off lid d toks ws = Inr toks'"
proof (induction ws arbitrary: toks)
  case Nil
  then show ?case by simp
next
  case (Cons w ws)
  show ?case
  proof (cases "w \<in> set W")
    case True
    with Cons.prems(1) have m: "map_of d w = Some (first_seen_id W w)" by (simp add: dict_ok_def)
    from first_seen_id_less[OF True] Cons.prems(2,3)
    have c: "py_chr (off + int (first_seen_id W w)) = Inr (nat (off + int (first_seen_id W w)))"
      by (simp add: py_chr_def)
    from Cons.IH[OF Cons.prems] show ?thesis by (simp add: m c)
  next
    case False
    with Cons.prems(1) have m: "map_of d w = None" by (simp add: dict_ok_def)
    from Cons.IH[OF Cons.prems] show ?thesis by (simp add: m)
  qed
qed

lemma output_lines_loop_returns:
  "dict_ok d W \<Longrightarrow> 0 \<le> off \<Longrightarrow> off + int (length (remdups W)) \<le> 1114112 \<Longrightarrow>
     \<exists>toks'. output_lines_loop off lid d toks ls = Inr toks'"
proof (induction ls arbitrary: toks lid)
  case Nil
  then show ?case by simp
next
  case (Cons l ls)
  from output_words_returns[OF Cons.prems, of lid toks "py_split l"]
  obtain t1 where w: "output_words off lid d toks (py_split l) = Inr t1" by blast
  from Cons.IH[OF Cons.prems, of "Suc lid" t1] show ?case by (simp add: w)
qed

lemma tokenize_returns:
  assumes "0 \<le> off" and "off + int (length (remdups (words_of il))) \<le> 1114112"
  shows "\<exists>its ots. tokenize_by_space_splited_word il ol off = Inr (its, ots)"
proof -
  from input_lines_loop_returns[OF dict_ok_empty assms(1), of il 0 "[]"] assms(2)
  obtain d its where i: "input_lines_loop off 0 [] [] il = Inr (d, its)" by auto
  from input_lines_loop_spec[OF dict_ok_empty i] have ok: "dict_ok d (words_of il)" by simp
  from output_lines_loop_returns[OF ok assms, of 0 "[]" ol]
  obtain ots where "output_lines_loop off 0 d [] ol = Inr ots" by blast
  with i show ?thesis by (simp add: tokenize_by_space_splited_word_def)
qed

lemma tokenize_same_lines:
  assumes "tokenize_by_space_splited_word ls ls off = Inr (its, ots)"
  shows "ots = its" and "its = map (spec_token off (words_of ls)) (tagged_from 0 ls)"
proof -
  note s = tokenize_spec[OF assms]
  have "filter (\<lambda>p. fst p \<in> set (words_of ls)) (tagged_from 0 ls) = tagged_from 0 ls"
    unfolding filter_id_conv fst_tagged_from[of 0 ls, symmetric] by auto
  with s show "ots = its" by simp
  from s show "its = map (spec_token off (words_of ls)) (tagged_from 0 ls)" by simp
qed

lemma align_step_lengths:
  "fold align_step R (m, ih, oh) = (m', ih', oh') \<Longrightarrow> length ih' = length ih \<and> length oh' = length oh"
proof (induction R arbitrary: m ih oh)
  case Nil
  then show ?case by simp
next
  case (Cons t R)
  from Cons.prems Cons.IH[of "mapping_add m (source_line_id t) (source_line_id t)"
      "ih[source_line_id t := ih ! source_line_id t + tok_length t]"
      "oh[source_line_id t := oh ! source_line_id t + tok_length t]"]
  show ?case by (simp add: align_step_def)
qed

lemma align_loop_identity:
  assumes "\<forall>t \<in> set T. source_line_id t < n"
  shows "length ih = n \<Longrightarrow> length oh = n \<Longrightarrow> R = drop i T \<Longrightarrow> i \<le> length T \<Longrightarrow>
     align_loop T T i (m, ih, oh) (map Some [i..<i + length R]) = Inr (fold align_step R (m, ih, oh))"
proof (induction R arbitrary: i m ih oh)
  case Nil
  then show ?case by simp
next
  case (Cons t R)
  from Cons.prems(3) have i: "i < length T" by (metis drop_all leI list.distinct(1))
  from Cons.prems(3) i have t: "T ! i = t" and R: "R = drop (Suc i) T"
    by (metis Cons_nth_drop_Suc list.inject)+
  from i t assms have tl: "source_line_id t < n" by (metis nth_mem)
  have up: "[i..<i + length (t # R)] = i # [Suc i..<Suc i + length R]" by (simp add: upt_rec)
  from i have si: "Suc i \<le> length T" by simp
  have step: "align_loop T T i (m, ih, oh) (Some i # as)
      = align_loop T T (Suc i) (align_step t (m, ih, oh)) as" for as
    using i t tl Cons.prems(1,2) by (simp add: align_step_def Let_def)
  have "align_loop T T i (m, ih, oh) (map Some [i..<i + length (t # R)])
      = align_loop T T (Suc i) (align_step t (m, ih, oh)) (map Some [Suc i..<Suc i + length R])"
    unfolding up list.map(2) step ..
  also have "\<dots> = Inr (fold align_step R (align_step t (m, ih, oh)))"
  proof -
    have eq: "align_step t (m, ih, oh) =
        (mapping_add m (source_line_id t) (source_line_id t),
         ih[source_line_id t := ih ! source_line_id t + tok_length t],
         oh[source_line_id t := oh ! source_line_id t + tok_length t])"
      by (simp add: align_step_def)
    show ?thesis unfolding eq
      by (rule Cons.IH[OF _ _ R si]) (simp_all add: Cons.prems(1,2))
  qed
  finally show ?case by simp
qed

lemma py_split_acc_words_nonempty: "w \<in> set (py_split_acc a s) \<Longrightarrow> w \<noteq> []"
  by (induction s arbitrary: a) (auto split: if_splits)

lemma line_total_pos: "py_split l \<noteq> [] \<Longrightarrow> 0 < line_total l"
proof -
  assume "py_split l \<noteq> []"
  then obtain w ws where ws: "py_split l = w # ws" by (cases "py_split l") auto
  then have "w \<in> set (py_split_acc [] l)" by (simp add: py_split_def)
  from py_split_acc_words_nonempty[OF this] ws show ?thesis by (simp add: line_total_def)
qed

lemma map_of_identity_groups:
  "map_of (identity_groups k) p = (if p < k then Some [p] else None)"
  by (induction k) (auto simp: identity_groups_def map_add_def split: option.splits)

lemma identity_groups_Suc: "identity_groups (Suc k) = identity_groups k @ [(k, [k])]"
  by (simp add: identity_groups_def)

lemma mapping_add_fresh: "mapping_add (identity_groups k) k k = identity_groups (Suc k)"
  by (simp add: mapping_add_def map_of_identity_groups identity_groups_Suc)

lemma mapping_add_again: "mapping_add (identity_groups (Suc k)) k k = identity_groups (Suc k)"
proof -
  have "map (\<lambda>(k', s). if k' = k then (k', List.insert k s) else (k', s)) (identity_groups (Suc k))
      = identity_groups (Suc k)"
    by (rule map_idI) (auto simp: identity_groups_def)
  then show ?thesis by (simp add: mapping_add_def map_of_identity_groups)
qed

lemma fold_words_rest:
  "k < length ih \<Longrightarrow> k < length oh \<Longrightarrow>
   fold align_step (map (\<lambda>w. spec_token off W (w, k)) ws) (identity_groups (Suc k), ih, oh)
     = (identity_groups (Suc k), ih[k := ih ! k + sum_list (map length ws)],
        oh[k := oh ! k + sum_list (map length ws)])"
proof (induction ws arbitrary: ih oh)
  case Nil
  then show ?case by simp
next
  case (Cons w ws)
  have "fold align_step (map (\<lambda>w. spec_token off W (w, k)) (w # ws)) (identity_groups (Suc k), ih, oh)
     = fold align_step (map (\<lambda>w. spec_token off W (w, k)) ws)
         (identity_groups (Suc k), ih[k := ih ! k + length w], oh[k := oh ! k + length w])"
    by (simp add: align_step_def spec_token_def mapping_add_again)
  also have "\<dots> = (identity_groups (Suc k),
        (ih[k := ih ! k + length w])[k := (ih[k := ih ! k + length w]) ! k + sum_list (map length ws)],
        (oh[k := oh ! k + length w])[k := (oh[k := oh ! k + length w]) ! k + sum_list (map length ws)])"
    by (rule Cons.IH) (simp_all add: Cons.prems)
  finally show ?case using Cons.prems by (simp add: add.assoc)
qed

lemma fold_words_line:
  assumes "ws \<noteq> []" and "k < length ih" and "k < length oh"
  shows "fold align_step (map (\<lambda>w. spec_token off W (w, k)) ws) (identity_groups k, ih, oh)
     = (identity_groups (Suc k), ih[k := ih ! k + sum_list (map length ws)],
        oh[k := oh ! k + sum_list (map length ws)])"
proof -
  from assms(1) obtain w ws' where ws: "ws = w # ws'" by (cases ws) auto
  have "fold align_step (map (\<lambda>w. spec_token off W (w, k)) ws) (identity_groups k, ih, oh)
     = fold align_step (map (\<lambda>w. spec_token off W (w, k)) ws')
         (identity_groups (Suc k), ih[k := ih ! k + length w], oh[k := oh ! k + length w])"
    by (simp add: ws align_step_def spec_token_def mapping_add_fresh)
  also have "\<dots> = (identity_groups (Suc k),
        (ih[k := ih ! k + length w])[k := (ih[k := ih ! k + length w]) ! k + sum_list (map length ws')],
        (oh[k := oh ! k + length w])[k := (oh[k := oh ! k + length w]) ! k + sum_list (map length ws')])"
    by (rule fold_words_rest) (simp_all add: assms)
  finally show ?thesis using assms by (simp add: ws add.assoc)
qed

lemma fold_lines:
  "\<forall>l \<in> set ls. py_split l \<noteq> [] \<Longrightarrow> length done = k \<Longrightarrow>
   fold align_step (map (spec_token off W) (tagged_from k ls))
      (identity_groups k, map line_total done @ replicate (length ls) 0,
       map line_total done @ replicate (length ls) 0)
     = (identity_groups (k + length ls), map line_total (done @ ls), map line_total (done @ ls))"
proof (induction ls arbitrary: k "done")
  case Nil
  then show ?case by simp
next
  case (Cons l ls)
  let ?z = "map line_total done @ replicate (length (l # ls)) 0"
  let ?z' = "map line_total (done @ [l]) @ replicate (length ls) 0"
  have k: "k < length ?z" using Cons.prems(2) by simp
  have zk: "?z[k := ?z ! k + sum_list (map length (py_split l))] = ?z'"
    using Cons.prems(2) by (simp add: nth_append list_update_append line_total_def)
  have ne: "py_split l \<noteq> []" using Cons.prems(1) by simp
  have "fold align_step (map (spec_token off W) (tagged_from k (l # ls))) (identity_groups k, ?z, ?z)
     = fold align_step (map (spec_token off W) (tagged_from (Suc k) ls))
         (fold align_step (map (\<lambda>w. spec_token off W (w, k)) (py_split l)) (identity_groups k, ?z, ?z))"
    by (simp add: comp_def)
  also have "fold align_step (map (\<lambda>w. spec_token off W (w, k)) (py_split l)) (identity_groups k, ?z, ?z)
     = (identity_groups (Suc k), ?z', ?z')"
    unfolding fold_words_line[OF ne k k] zk ..
  also have "fold align_step (map (spec_token off W) (tagged_from (Suc k) ls)) (identity_groups (Suc k), ?z', ?z')
     = (identity_groups (Suc k + length ls), map line_total ((done @ [l]) @ ls), map line_total ((done @ [l]) @ ls))"
    by (rule Cons.IH) (use Cons.prems in auto)
  finally show ?case by simp
qed

lemma hit_rate_div_Cons:
  "hit_rate_div (h # hs) (l # ls) =
     (if line_total l = 0 then Inl ZeroDivisionError
      else (case hit_rate_div hs ls of
              Inl e \<Rightarrow> Inl e
            | Inr rs \<Rightarrow> Inr (of_nat h / of_nat (line_total l) # rs)))"
  unfolding line_total_def by (simp add: Let_def)

lemma hit_rate_div_ones:
  "\<forall>l \<in> set ls. py_split l \<noteq> [] \<Longrightarrow>
     hit_rate_div (map line_total ls) ls = Inr (replicate (length ls) 1)"
proof (induction ls)
  case Nil
  then show ?case by simp
next
  case (Cons l ls)
  from Cons.prems line_total_pos[of l] have "line_total l \<noteq> 0" by simp
  with Cons show ?case by (simp add: hit_rate_div_Cons del: hit_rate_div.simps)
qed

lemma drop_low_ones: "drop_low p m (replicate n 1) = m"
  by (induction n arbitrary: p) simp_all

lemma tagged_from_line_ids: "p \<in> set (tagged_from k ls) \<Longrightarrow> snd p < k + length ls"
  by (induction ls arbitrary: k) fastforce+

text \<open>
  Claim C9. Let every line have at least one word, let the lines have no more
  distinct words than \<open>chr\<close> has code points, and let the LCS routine return a longest
  common subsequence alignment on equal sequences. Then aligning the lines with
  themselves returns the hit rate 1 for every input and every output line, and the
  mapping sends each output line \<open>p\<close> to the one-element set \<open>{p}\<close> and has no other
  entry.
\<close>

theorem identical_lines_align_to_themselves:
  assumes words: "\<forall>l \<in> set ls. py_split l \<noteq> []"
      and vocabulary: "length (remdups (words_of ls)) \<le> 1114112"
      and lcs: "\<forall>xs. is_lcs_idx xs xs (lcs xs xs)"
  shows "lcs_sequence_alignment lcs ls ls =
           Inr (identity_groups (length ls), replicate (length ls) 1, replicate (length ls) 1)"
proof -
  let ?n = "length ls"
  from tokenize_returns[of 0 ls ls] vocabulary
  obtain its ots where tk: "tokenize_by_space_splited_word ls ls 0 = Inr (its, ots)" by auto
  note same = tokenize_same_lines[OF tk]
  let ?T = "map (spec_token 0 (words_of ls)) (tagged_from 0 ls)"
  have T: "its = ?T" by (rule same(2))
  have ids: "\<forall>t \<in> set ?T. source_line_id t < ?n"
    using tagged_from_line_ids[of _ 0 ls] by (auto simp: spec_token_def)
  from lcs have al: "lcs (map token ?T) (map token ?T) = map Some [0..<length ?T]"
    using lcs_of_equal_is_identity[of "map token ?T" "lcs (map token ?T) (map token ?T)"] by simp
  have loop: "align_loop ?T ?T 0 ([], replicate ?n 0, replicate ?n 0) (map Some [0..<length ?T])
      = Inr (fold align_step ?T ([], replicate ?n 0, replicate ?n 0))"
    using align_loop_identity[OF ids, of "replicate ?n 0" "replicate ?n 0" ?T 0 "[]"] by simp
  have fl: "fold align_step ?T ([], replicate ?n 0, replicate ?n 0)
      = (identity_groups ?n, map line_total ls, map line_total ls)"
    using fold_lines[OF words, of "[]" 0 0 "words_of ls"] by (simp add: identity_groups_def)
  have tk': "tokenize_for_lcs ls ls = Inr (?T, ?T)"
    using tk same by (simp add: tokenize_for_lcs_def)
  show ?thesis
    unfolding lcs_sequence_alignment_def tk'
    by (simp only: sum.case prod.case Let_def al loop fl hit_rate_div_ones[OF words] drop_low_ones)
qed

theorem identical_lines_align_to_themselves_witness:
  "py_split ''aa b'' \<noteq> [] \<and> py_split ''c'' \<noteq> [] \<and>
   length (remdups (words_of [''aa b'', ''c''])) \<le> 1114112 \<and>
   (\<forall>xs. is_lcs_idx xs xs (lcs_sequence_idx xs xs)) \<and>
   lcs_sequence_alignment lcs_sequence_idx [''aa b'', ''c''] [''aa b'', ''c'']
     = Inr ([(0, [0]), (1, [1])], [1, 1], [1, 1])"
proof -
  have w: "\<forall>l \<in> set [''aa b'', ''c'']. py_split l \<noteq> []"
    by (simp add: py_split_def py_isspace_def)
  have v: "length (remdups (words_of [''aa b'', ''c''])) \<le> 1114112"
    by (simp add: words_of_def py_split_def py_isspace_def)
  have l: "\<forall>xs. is_lcs_idx xs xs (lcs_sequence_idx xs xs)"
    using lcs_sequence_idx_same by blast
  have two: "[0..<length [''aa b'', ''c'']] = [0, 1]" by (simp add: upt_rec)
  from identical_lines_align_to_themselves[where lcs = lcs_sequence_idx, OF w v l] w v l two
  show ?thesis by (simp add: identity_groups_def)
qed

end
